theory Spec2Isabelle
  imports Main "HOL-Library.AList"
begin

section \<open>Strings\<close>

text \<open>
  Strings are character lists.  \<open>toLowerCase\<close> is modelled on the ASCII letters; every
  other character is passed through (the key names and modifier aliases the provider
  compares against are ASCII).
\<close>

definition upper_chars :: string where
  "upper_chars = ''ABCDEFGHIJKLMNOPQRSTUVWXYZ''"

definition lower_chars :: string where
  "lower_chars = ''abcdefghijklmnopqrstuvwxyz''"

definition toLowerCase_char :: "char \<Rightarrow> char" where
  "toLowerCase_char c =
     (case map_of (zip upper_chars lower_chars) c of Some l \<Rightarrow> l | None \<Rightarrow> c)"

definition toLowerCase :: "string \<Rightarrow> string" where
  "toLowerCase s = map toLowerCase_char s"

text \<open>
  \<open>String.prototype.split\<close> with a one-character separator: the empty string splits
  into one empty segment, and a separator at either end yields an empty segment there.
\<close>

fun split :: "char \<Rightarrow> string \<Rightarrow> string list" where
  "split sep [] = [[]]"
| "split sep (c # cs) =
     (if c = sep then [] # split sep cs
      else (case split sep cs of
              [] \<Rightarrow> [[c]]
            | seg # segs \<Rightarrow> (c # seg) # segs))"

text \<open>\<open>Array.prototype.join\<close>: the empty array joins to the empty string.\<close>

fun join :: "string \<Rightarrow> string list \<Rightarrow> string" where
  "join sep [] = []"
| "join sep [x] = x"
| "join sep (x # y # ys) = x @ sep @ join sep (y # ys)"

section \<open>Key normalisation: \<open>ShortcutProvider.transformKeys\<close>\<close>

text \<open>The \<open>switch\<close> over the lower-cased token, in the order of its cases.\<close>

definition transformKey :: "string \<Rightarrow> string" where
  "transformKey rawKey =
     (let keyEvent = toLowerCase rawKey in
      if keyEvent = ''opt'' then ''alt''
      else if keyEvent = ''option'' then ''alt''
      else if keyEvent = ''control'' then ''ctrl''
      else if keyEvent = ''cmd'' then ''meta''
      else if keyEvent = ''command'' then ''meta''
      else keyEvent)"

text \<open>The outer arrow function: one raw combination, split at \<open>+\<close>, mapped, joined.\<close>

definition transformCombo :: "string \<Rightarrow> string" where
  "transformCombo rawKeys =
     (let splitKeys = split (CHR ''+'') rawKeys;
          transformedKeys = map transformKey splitKeys
      in join ''+'' transformedKeys)"

definition transformKeys :: "string list \<Rightarrow> string list" where
  "transformKeys rawList = map transformCombo rawList"

text \<open>
  The normaliser as the specification words it: every \<open>+\<close>-segment is lower-cased, the
  aliases \<open>opt\<close>/\<open>option\<close>, \<open>control\<close>, \<open>cmd\<close>/\<open>command\<close> are rewritten to \<open>alt\<close>,
  \<open>ctrl\<close>, \<open>meta\<close>, and any other token is only lower-cased.
\<close>

definition spec_token :: "string \<Rightarrow> string" where
  "spec_token t =
     (if toLowerCase t \<in> {''opt'', ''option''} then ''alt''
      else if toLowerCase t = ''control'' then ''ctrl''
      else if toLowerCase t \<in> {''cmd'', ''command''} then ''meta''
      else toLowerCase t)"

definition spec_normalize :: "string list \<Rightarrow> string list" where
  "spec_normalize rawList =
     map (\<lambda>raw. join ''+'' (map spec_token (split (CHR ''+'') raw))) rawList"

section \<open>Data model\<close>

text \<open>
  A handler is an opaque callback; it is modelled by an identifier, and calling it is
  recorded as an effect.  Handlers that re-enter the provider or throw are outside the
  model.
\<close>

type_synonym handler = nat

text \<open>The fields of a keyboard event the provider reads; \<open>tagName\<close> is \<open>target.tagName\<close>.\<close>

record event =
  key :: string
  ctrlKey :: bool
  altKey :: bool
  metaKey :: bool
  tagName :: string

text \<open>
  \<open>IShortcut\<close>.  The source's fields \<open>id\<close> and \<open>method\<close> are \<open>id_str\<close> and
  \<open>method_fn\<close> here.  Durations and the hold counter are milliseconds, as integers.
\<close>

record shortcut =
  description :: string
  hold :: bool
  holdDuration :: int
  id_str :: string
  keys :: "string list"
  method_fn :: handler
  sequence :: bool
  title :: string

datatype js_error = TypeError

text \<open>The routing table a handler was taken from when it was called.\<close>

datatype routing = Instantaneous | Hold | Sequence

text \<open>
  What the provider does to the outside, in order: \<open>e.preventDefault()\<close>, a call of the
  handler stored under a key of a routing table with the event passed to it, and an
  exception that leaves a timer callback uncaught.
\<close>

datatype effect =
    PreventDefault event
  | Call routing string handler event
  | Uncaught js_error

text \<open>
  The two timer callbacks of the provider, as data.  \<open>HoldTick keysDown keyPress e\<close> is the
  closure that \<open>createTimer\<close> hands to \<open>window.setInterval\<close>: it holds the key-down's local
  \<open>keysDown\<close>, its \<open>keyPress\<close> and its event.  \<open>SequenceReset\<close> is the closure handed to
  \<open>window.setTimeout\<close>.
\<close>

datatype callback =
    HoldTick "string list" string event
  | SequenceReset

text \<open>
  An entry of the window's timer table: whether it repeats, its delay, the milliseconds
  left until it fires next, and its callback.
\<close>

record timer =
  repeating :: bool
  delay :: nat
  remaining :: nat
  callback :: callback

text \<open>
  The \<open>ShortcutProvider\<close> instance: its fields, \<open>state.shortcuts\<close>, \<open>props.ignoreTagNames\<close>,
  and the part of \<open>window\<close> it uses (the table of pending timers by handle, and the next
  handle).  The routing tables are objects used as dictionaries; they are association
  lists in insertion order.  Their only enumeration, in the conflict check of
  registration, is a disjunction over the keys and does not depend on the order.  A
  lookup sees the entries the provider stored and nothing else: no key name or
  combination string the provider builds names a property of \<open>Object.prototype\<close>.
  \<open>shortcuts\<close> is \<open>this.state.shortcuts\<close>.  \<open>pending\<close> and \<open>batching\<close> are the part of React
  the provider uses through \<open>this.setState\<close>: the queue of state updates not yet applied
  to \<open>this.state\<close>, oldest first, and whether the provider is being called inside a batch
  (an event handler or a lifecycle method of a component, where React defers the updates
  to the end of the batch).  Every update the provider queues is an object with the one
  key \<open>shortcuts\<close>, so an update is the list it carries.
\<close>

record provider =
  holdDurations :: "(string \<times> int) list"
  holdInterval :: "nat option"
  holdListeners :: "(string \<times> handler) list"
  holdTimer :: int
  keysDown :: "string list"
  listeners :: "(string \<times> handler) list"
  previousKeys :: "string list"
  sequenceListeners :: "(string \<times> handler) list"
  sequenceTimer :: "nat option"
  shortcuts :: "shortcut list"
  ignoreTagNames :: "string list option"
  timers :: "(nat \<times> timer) list"
  nextHandle :: nat
  pending :: "shortcut list list"
  batching :: bool

definition ignoreForTagNames :: "string list" where
  "ignoreForTagNames = [''input'']"

text \<open>A freshly constructed provider with the given \<open>ignoreTagNames\<close> prop.\<close>

definition initial :: "string list option \<Rightarrow> provider" where
  "initial tags =
     \<lparr> holdDurations = [], holdInterval = None, holdListeners = [], holdTimer = 0,
       keysDown = [], listeners = [], previousKeys = [], sequenceListeners = [],
       sequenceTimer = None, shortcuts = [], ignoreTagNames = tags,
       timers = [], nextHandle = 1, pending = [], batching = False \<rparr>"

section \<open>State updates\<close>

text \<open>
  React applies the queued updates in the order they were queued, each one merged into
  \<open>this.state\<close>, and empties the queue.
\<close>

definition flush :: "provider \<Rightarrow> provider" where
  "flush p = (fold (\<lambda>v q. q\<lparr> shortcuts := v \<rparr>) (pending p) p)\<lparr> pending := [] \<rparr>"

text \<open>
  \<open>this.setState({ shortcuts: v })\<close>: the update is queued; outside a batch React applies
  the queue before \<open>setState\<close> returns, inside a batch \<open>this.state\<close> stays as it is until the
  batch ends.
\<close>

definition setState :: "shortcut list \<Rightarrow> provider \<Rightarrow> provider" where
  "setState v p =
     (let q = p\<lparr> pending := pending p @ [v] \<rparr>
      in if batching p then q else flush q)"

text \<open>React entering and leaving a batch; leaving it applies the queue.\<close>

definition beginBatch :: "provider \<Rightarrow> provider" where
  "beginBatch p = p\<lparr> batching := True \<rparr>"

definition endBatch :: "provider \<Rightarrow> provider" where
  "endBatch p = (flush p)\<lparr> batching := False \<rparr>"

section \<open>The window's timers\<close>

text \<open>
  \<open>window.setInterval\<close> and \<open>window.setTimeout\<close> add an entry under a fresh handle and
  return the handle; \<open>clearInterval\<close> and \<open>clearTimeout\<close> remove the entry of a handle
  (both kinds of timer share one pool of handles).
\<close>

definition setInterval :: "callback \<Rightarrow> nat \<Rightarrow> provider \<Rightarrow> nat \<times> provider" where
  "setInterval cb ms p =
     (nextHandle p,
      p\<lparr> timers := timers p @
             [(nextHandle p, \<lparr> repeating = True, delay = ms, remaining = ms, callback = cb \<rparr>)],
         nextHandle := nextHandle p + 1 \<rparr>)"

definition setTimeout :: "callback \<Rightarrow> nat \<Rightarrow> provider \<Rightarrow> nat \<times> provider" where
  "setTimeout cb ms p =
     (nextHandle p,
      p\<lparr> timers := timers p @
             [(nextHandle p, \<lparr> repeating = False, delay = ms, remaining = ms, callback = cb \<rparr>)],
         nextHandle := nextHandle p + 1 \<rparr>)"

definition clearTimer :: "nat \<Rightarrow> provider \<Rightarrow> provider" where
  "clearTimer h p = p\<lparr> timers := AList.delete h (timers p) \<rparr>"

definition clearInterval :: "nat \<Rightarrow> provider \<Rightarrow> provider" where
  "clearInterval = clearTimer"

definition clearTimeout :: "nat \<Rightarrow> provider \<Rightarrow> provider" where
  "clearTimeout = clearTimer"

section \<open>The hold timer\<close>

definition resetTimer :: "provider \<Rightarrow> provider" where
  "resetTimer p =
     (case holdInterval p of
        None \<Rightarrow> p
      | Some h \<Rightarrow> (clearInterval h p)\<lparr> holdInterval := None, holdTimer := 0 \<rparr>)"

definition createTimer :: "callback \<Rightarrow> provider \<Rightarrow> provider" where
  "createTimer cb p =
     (case setInterval cb 100 p of (h, p') \<Rightarrow> p'\<lparr> holdInterval := Some h \<rparr>)"

text \<open>
  The body of the tick: \<open>keysDown.forEach\<close> over the key-down's own tokens.  The
  comparison \<open>holdTimer >= holdDurations[key]\<close> is false for a key without a duration
  (\<open>undefined\<close>).  \<open>holdListeners[keyPress](e)\<close> throws a \<open>TypeError\<close> when the table
  has no entry for \<open>keyPress\<close>; the exception ends the loop and the callback.  The
  result is the provider as the loop left it, the calls made, and the exception if any.
\<close>

fun holdCheck ::
  "string list \<Rightarrow> string \<Rightarrow> event \<Rightarrow> provider \<Rightarrow> provider \<times> effect list \<times> js_error option"
where
  "holdCheck [] keyPress e p = (p, [], None)"
| "holdCheck (k # ks) keyPress e p =
     (if (case map_of (holdDurations p) k of None \<Rightarrow> False | Some d \<Rightarrow> holdTimer p \<ge> d)
      then (case map_of (holdListeners p) keyPress of
              None \<Rightarrow> (p, [], Some TypeError)
            | Some m \<Rightarrow>
                (case holdCheck ks keyPress e (resetTimer p) of
                   (p', fx, err) \<Rightarrow> (p', Call Hold keyPress m e # fx, err)))
      else holdCheck ks keyPress e p)"

text \<open>
  Running a timer callback.  The interval's callback is
  \<open>() => { callback(); this.holdTimer += 100 }\<close>: the increment is skipped when
  \<open>callback()\<close> throws, and the window reports the exception.
\<close>

fun run_callback :: "callback \<Rightarrow> provider \<Rightarrow> provider \<times> effect list" where
  "run_callback (HoldTick ks keyPress e) p =
     (case holdCheck ks keyPress e p of
        (p', fx, None) \<Rightarrow> (p'\<lparr> holdTimer := holdTimer p' + 100 \<rparr>, fx)
      | (p', fx, Some err) \<Rightarrow> (p', fx @ [Uncaught err]))"
| "run_callback SequenceReset p =
     (p\<lparr> previousKeys := [], sequenceTimer := None \<rparr>, [])"

section \<open>Key events\<close>

definition pressedKeys :: "event \<Rightarrow> string list" where
  "pressedKeys e =
     (if ctrlKey e then [''ctrl''] else []) @
     (if altKey e then [''alt''] else []) @
     (if metaKey e then [''meta''] else []) @
     [toLowerCase (key e)]"

definition ignoreList :: "provider \<Rightarrow> string list" where
  "ignoreList p =
     (case ignoreTagNames p of
        Some tags \<Rightarrow> map toLowerCase tags @ ignoreForTagNames
      | None \<Rightarrow> ignoreForTagNames)"

text \<open>
  \<open>keyDown\<close>.  \<open>pressedKeys e\<close> is the local array \<open>keysDown\<close> of the source (the modifier
  tokens of the event that are set, then the lower-cased key).
\<close>

definition keyDown :: "event \<Rightarrow> provider \<Rightarrow> provider \<times> effect list" where
  "keyDown e p =
     (if toLowerCase (tagName e) \<notin> set (ignoreList p) \<and>
         toLowerCase (key e) \<notin> set (keysDown p)
      then
        let pressed = pressedKeys e;
            keyPress = join ''+'' pressed;
            fx1 = (case map_of (listeners p) keyPress of
                     Some m \<Rightarrow> [PreventDefault e, Call Instantaneous keyPress m e]
                   | None \<Rightarrow> []);
            p1 = p\<lparr> keysDown := keysDown p @ pressed \<rparr>;
            p2 = resetTimer p1;
            p3 = createTimer (HoldTick pressed keyPress e) p2;
            p4 = (case sequenceTimer p3 of Some h \<Rightarrow> clearTimeout h p3 | None \<Rightarrow> p3);
            p5 = p4\<lparr> previousKeys := previousKeys p4 @ pressed \<rparr>;
            sequenceKeys = join '','' (previousKeys p5);
            fx2 = (case map_of (sequenceListeners p5) sequenceKeys of
                     Some m \<Rightarrow> [Call Sequence sequenceKeys m e]
                   | None \<Rightarrow> [])
        in (case setTimeout SequenceReset 2000 p5 of
              (h, p6) \<Rightarrow> (p6\<lparr> sequenceTimer := Some h \<rparr>, fx1 @ fx2))
      else (p, []))"

definition keyUp :: "event \<Rightarrow> provider \<Rightarrow> provider" where
  "keyUp e p =
     (let keysUp = pressedKeys e
      in resetTimer (p\<lparr> keysDown := filter (\<lambda>k. k \<notin> set keysUp) (keysDown p) \<rparr>))"

section \<open>Registration\<close>

text \<open>
  \<open>Number.prototype.toString(36)\<close> on a non-negative integer, the value of \<open>Date.now()\<close>.
\<close>

definition digits36 :: string where
  "digits36 = ''0123456789abcdefghijklmnopqrstuvwxyz''"

fun toString36 :: "nat \<Rightarrow> string" where
  "toString36 n =
     (if n < 36 then [digits36 ! n]
      else toString36 (n div 36) @ [digits36 ! (n mod 36)])"

declare toString36.simps [simp del]

text \<open>\<open>const listeners = hold ? this.holdListeners : this.listeners\<close>.\<close>

definition targetTable :: "int option \<Rightarrow> provider \<Rightarrow> (string \<times> handler) list" where
  "targetTable holdDur p = (if holdDur \<noteq> None then holdListeners p else listeners p)"

text \<open>
  \<open>registerShortcut(method, keys, title, description, holdDuration?)\<close> and
  \<open>registerSequenceShortcut(method, keys, title, description)\<close>; \<open>now\<close> is the value
  \<open>Date.now()\<close> returns during the call.
\<close>

definition registerShortcut ::
  "handler \<Rightarrow> string list \<Rightarrow> string \<Rightarrow> string \<Rightarrow> int option \<Rightarrow> nat \<Rightarrow> provider \<Rightarrow> provider"
where
  "registerShortcut m rawKeys ttl descr holdDur now p =
     (let currentShortcuts = shortcuts p;
          isHold = (holdDur \<noteq> None);
          duration = (case holdDur of Some d \<Rightarrow> d | None \<Rightarrow> 0);
          transformedKeys = transformKeys rawKeys;
          newShortcut =
            \<lparr> description = descr, hold = isHold, holdDuration = duration,
              id_str = toString36 now, keys = transformedKeys, method_fn = m,
              sequence = False, title = ttl \<rparr>;
          table = targetTable holdDur p;
          exists = fold (\<lambda>existingKey ex. ex \<or> list_ex (\<lambda>k. k = existingKey) transformedKeys)
                        (map fst table) False
      in if \<not> exists then
           setState (currentShortcuts @ [newShortcut])
             (fold (\<lambda>k q.
                      if isHold then
                        q\<lparr> holdDurations := AList.update k duration (holdDurations q),
                           holdListeners := AList.update k m (holdListeners q) \<rparr>
                      else q\<lparr> listeners := AList.update k m (listeners q) \<rparr>)
                   transformedKeys p)
         else p)"

definition registerSequenceShortcut ::
  "handler \<Rightarrow> string list \<Rightarrow> string \<Rightarrow> string \<Rightarrow> nat \<Rightarrow> provider \<Rightarrow> provider"
where
  "registerSequenceShortcut m rawKeys ttl descr now p =
     (let currentShortcuts = shortcuts p;
          newShortcut =
            \<lparr> description = descr, hold = False, holdDuration = 0,
              id_str = toString36 now, keys = rawKeys, method_fn = m,
              sequence = True, title = ttl \<rparr>;
          keyEvent = toLowerCase (join '','' rawKeys);
          exists = fold (\<lambda>existingKey ex. ex \<or> keyEvent = existingKey)
                        (map fst (sequenceListeners p)) False
      in if \<not> exists then
           setState (currentShortcuts @ [newShortcut])
             (p\<lparr> sequenceListeners := AList.update keyEvent m (sequenceListeners p) \<rparr>)
         else p)"

text \<open>\<open>unregisterShortcut(keys, sequence = false)\<close>.\<close>

definition unregisterShortcut :: "string list \<Rightarrow> bool \<Rightarrow> provider \<Rightarrow> provider" where
  "unregisterShortcut rawKeys isSequence p =
     (let currentShortcuts = shortcuts p;
          transformedKeys = transformKeys rawKeys;
          p1 = (if \<not> isSequence then
                  fold (\<lambda>k q.
                          q\<lparr> listeners := AList.delete k (listeners q),
                             holdListeners := AList.delete k (holdListeners q),
                             holdDurations := AList.delete k (holdDurations q) \<rparr>)
                       transformedKeys p
                else
                  (let keyEvent = join '','' transformedKeys
                   in p\<lparr> sequenceListeners := AList.delete keyEvent (sequenceListeners p) \<rparr>))
      in setState
           (filter (\<lambda>s. \<not> fold (\<lambda>shortcutKey match. match \<and> shortcutKey \<in> set transformedKeys)
                              (keys s) True)
                   currentShortcuts)
           p1)"

section \<open>The passage of time\<close>

text \<open>
  The window runs the timer callbacks.  \<open>advance d\<close> lets \<open>d\<close> milliseconds pass without
  running anything; \<open>fire h\<close> runs the timer of handle \<open>h\<close> if it is still pending (an
  interval is re-armed with its delay, a timeout is removed, before the callback runs);
  \<open>elapse ms\<close> lets \<open>ms\<close> milliseconds pass, running every timer each time it falls due,
  timers due at the same instant in the order of the table.  No key event arrives
  during \<open>elapse\<close>.
\<close>

definition advance :: "nat \<Rightarrow> provider \<Rightarrow> provider" where
  "advance d p =
     p\<lparr> timers := map (\<lambda>(h, t). (h, t\<lparr> remaining := remaining t - d \<rparr>)) (timers p) \<rparr>"

definition fire :: "nat \<Rightarrow> provider \<Rightarrow> provider \<times> effect list" where
  "fire h p =
     (case map_of (timers p) h of
        None \<Rightarrow> (p, [])
      | Some t \<Rightarrow>
          run_callback (callback t)
            (if repeating t
             then p\<lparr> timers := AList.update h (t\<lparr> remaining := delay t \<rparr>) (timers p) \<rparr>
             else clearTimer h p))"

fun fire_all :: "nat list \<Rightarrow> provider \<Rightarrow> provider \<times> effect list" where
  "fire_all [] p = (p, [])"
| "fire_all (h # hs) p =
     (case fire h p of
        (p1, fx1) \<Rightarrow> (case fire_all hs p1 of (p2, fx2) \<Rightarrow> (p2, fx1 @ fx2)))"

definition dueHandles :: "provider \<Rightarrow> nat list" where
  "dueHandles p = map fst (filter (\<lambda>(h, t). remaining t = 0) (timers p))"

definition nextDue :: "provider \<Rightarrow> nat" where
  "nextDue p = max 1 (min_list (map (\<lambda>(h, t). remaining t) (timers p)))"

function elapse :: "nat \<Rightarrow> provider \<Rightarrow> provider \<times> effect list" where
  "elapse ms p =
     (if timers p = [] \<or> ms < nextDue p then (advance ms p, [])
      else (case fire_all (dueHandles (advance (nextDue p) p)) (advance (nextDue p) p) of
              (p1, fx1) \<Rightarrow>
                (case elapse (ms - nextDue p) p1 of (p2, fx2) \<Rightarrow> (p2, fx1 @ fx2))))"
  by pat_completeness auto
termination
  by (relation "measure (\<lambda>(ms, p). ms)") (auto simp: nextDue_def)

declare elapse.simps [simp del]

section \<open>Runs of the provider\<close>

text \<open>
  A registration request of either kind, and its execution at a given reading of the
  clock.
\<close>

datatype registration =
    Chord handler "string list" string string "int option"
  | Sequenced handler "string list" string string

fun perform :: "registration \<Rightarrow> nat \<Rightarrow> provider \<Rightarrow> provider" where
  "perform (Chord m rawKeys ttl descr holdDur) now p =
     registerShortcut m rawKeys ttl descr holdDur now p"
| "perform (Sequenced m rawKeys ttl descr) now p =
     registerSequenceShortcut m rawKeys ttl descr now p"

text \<open>
  The states a provider can be in: a fresh instance, and whatever the public operations,
  the key events, the passage of time and React's batches make of a reachable state.
\<close>

inductive reachable :: "provider \<Rightarrow> bool" where
  fresh: "reachable (initial tags)"
| registered: "reachable p \<Longrightarrow> reachable (perform r now p)"
| unregistered: "reachable p \<Longrightarrow> reachable (unregisterShortcut rawKeys isSequence p)"
| pressed: "reachable p \<Longrightarrow> reachable (fst (keyDown e p))"
| released: "reachable p \<Longrightarrow> reachable (keyUp e p)"
| waited: "reachable p \<Longrightarrow> reachable (fst (elapse ms p))"
| began: "reachable p \<Longrightarrow> reachable (beginBatch p)"
| ended: "reachable p \<Longrightarrow> reachable (endBatch p)"

text \<open>The calls a list of effects makes through the instantaneous table.\<close>

fun instantaneousCalls :: "effect list \<Rightarrow> (string \<times> handler \<times> event) list" where
  "instantaneousCalls [] = []"
| "instantaneousCalls (Call Instantaneous k m e # fx) = (k, m, e) # instantaneousCalls fx"
| "instantaneousCalls (x # fx) = instantaneousCalls fx"

text \<open>The calls a list of effects makes through the sequence table.\<close>

fun sequenceCalls :: "effect list \<Rightarrow> (string \<times> handler \<times> event) list" where
  "sequenceCalls [] = []"
| "sequenceCalls (Call Sequence k m e # fx) = (k, m, e) # sequenceCalls fx"
| "sequenceCalls (x # fx) = sequenceCalls fx"

text \<open>
  Whether an unregistration request finds nothing to delete in the routing tables: in
  the chord path, none of its canonical combinations is a key of the instantaneous table,
  the hold table or the table of hold durations; in the sequence path, their comma-joined
  list is not a key of the sequence table.
\<close>

definition routingAbsent :: "string list \<Rightarrow> bool \<Rightarrow> provider \<Rightarrow> bool" where
  "routingAbsent rawKeys isSequence p \<longleftrightarrow>
     (if isSequence
      then join '','' (transformKeys rawKeys) \<notin> fst ` set (sequenceListeners p)
      else list_all (\<lambda>k. k \<notin> fst ` set (listeners p) \<and>
                         k \<notin> fst ` set (holdListeners p) \<and>
                         k \<notin> fst ` set (holdDurations p)) (transformKeys rawKeys))"

text \<open>
  The well-formedness of the window's timer table that every reachable state has: the
  handles are distinct and already handed out, and a pending \<open>SequenceReset\<close> is a
  timeout whose handle is the one stored in \<open>sequenceTimer\<close>.
\<close>

definition timers_ok :: "provider \<Rightarrow> bool" where
  "timers_ok p \<longleftrightarrow>
     distinct (map fst (timers p)) \<and>
     list_all (\<lambda>(h, t). h < nextHandle p \<and>
                 (callback t = SequenceReset \<longrightarrow> sequenceTimer p = Some h \<and> \<not> repeating t))
              (timers p)"

text \<open>
  \<open>sameButHold p q\<close>: \<open>q\<close> is \<open>p\<close> except for the timer table and the two fields of the
  hold timer.  \<open>sameButTimed p q\<close>: \<open>q\<close> is \<open>p\<close> except for those and the two fields of the
  sequence tracker, which are all the fields a timer callback writes.
\<close>

definition sameButHold :: "provider \<Rightarrow> provider \<Rightarrow> bool" where
  "sameButHold p q \<longleftrightarrow>
     q\<lparr> timers := timers p, holdInterval := holdInterval p, holdTimer := holdTimer p \<rparr> = p"

definition sameButTimed :: "provider \<Rightarrow> provider \<Rightarrow> bool" where
  "sameButTimed p q \<longleftrightarrow>
     q\<lparr> timers := timers p, holdInterval := holdInterval p, holdTimer := holdTimer p,
        previousKeys := previousKeys p, sequenceTimer := sequenceTimer p \<rparr> = p"

text \<open>The timeout that \<open>keyDown\<close> hands to \<open>window.setTimeout\<close>, as it sits in the table.\<close>

definition sequenceTimeout :: timer where
  "sequenceTimeout =
     \<lparr> repeating = False, delay = 2000, remaining = 2000, callback = SequenceReset \<rparr>"

text \<open>
  What can happen between two key-downs without a key-down: time passes, keys are
  released.  \<open>quietly\<close> runs such steps, and \<open>waitTotal\<close> is the time they take.
\<close>

datatype quiet = Wait nat | Release event

fun quietly :: "quiet list \<Rightarrow> provider \<Rightarrow> provider" where
  "quietly [] p = p"
| "quietly (Wait ms # qs) p = quietly qs (fst (elapse ms p))"
| "quietly (Release e # qs) p = quietly qs (keyUp e p)"

fun waitTotal :: "quiet list \<Rightarrow> nat" where
  "waitTotal [] = 0"
| "waitTotal (Wait ms # qs) = ms + waitTotal qs"
| "waitTotal (Release e # qs) = waitTotal qs"

section \<open>Example events and states\<close>

text \<open>
  Key-downs on a \<open>div\<close>: \<open>K\<close> and \<open>s\<close> with the control key held, and \<open>s\<close>, \<open>a\<close>, \<open>b\<close>
  and \<open>x\<close> without modifiers.
\<close>

definition ctrl_K_event :: event where
  "ctrl_K_event = \<lparr> key = ''K'', ctrlKey = True, altKey = False, metaKey = False, tagName = ''DIV'' \<rparr>"

definition ctrl_s_event :: event where
  "ctrl_s_event = \<lparr> key = ''s'', ctrlKey = True, altKey = False, metaKey = False, tagName = ''DIV'' \<rparr>"

definition s_event :: event where
  "s_event = \<lparr> key = ''s'', ctrlKey = False, altKey = False, metaKey = False, tagName = ''DIV'' \<rparr>"

definition a_event :: event where
  "a_event = \<lparr> key = ''a'', ctrlKey = False, altKey = False, metaKey = False, tagName = ''DIV'' \<rparr>"

definition b_event :: event where
  "b_event = \<lparr> key = ''b'', ctrlKey = False, altKey = False, metaKey = False, tagName = ''DIV'' \<rparr>"

definition x_event :: event where
  "x_event = \<lparr> key = ''x'', ctrlKey = False, altKey = False, metaKey = False, tagName = ''DIV'' \<rparr>"

text \<open>An instantaneous shortcut on \<open>ctrl+k\<close>, registered on a fresh provider.\<close>

definition withOpen :: provider where
  "withOpen = registerShortcut 1 [''ctrl+k''] ''Open'' [] None 3 (initial None)"

text \<open>An instantaneous shortcut on \<open>ctrl+s\<close>, registered on a fresh provider.\<close>

definition withSave :: provider where
  "withSave = registerShortcut 1 [''ctrl+s''] ''Save'' ''saves'' None 4 (initial None)"

text \<open>
  \<open>ctrl+s\<close> registered as an instantaneous shortcut and then as a hold shortcut of
  300ms, on a fresh provider.
\<close>

definition withSaveAndHold :: provider where
  "withSaveAndHold =
     registerShortcut 2 [''ctrl+s''] ''Save all'' [] (Some 300) 8
       (registerShortcut 1 [''ctrl+s''] ''Save'' [] None 7 (initial None))"

text \<open>
  The same two registrations made inside one batch on a fresh provider, as from the
  \<open>componentDidMount\<close> of a consumer; the batch has not ended yet.
\<close>

definition batchedSaveAndHold :: provider where
  "batchedSaveAndHold =
     registerShortcut 2 [''ctrl+s''] ''Save all'' [] (Some 300) 8
       (registerShortcut 1 [''ctrl+s''] ''Save'' [] None 7 (beginBatch (initial None)))"

text \<open>A chord shortcut on \<open>ctrl+s\<close> and one on \<open>x\<close>, registered on a fresh provider.\<close>

definition withTwoChords :: provider where
  "withTwoChords =
     registerShortcut 2 [''x''] ''Cut'' [] None 6
       (registerShortcut 1 [''ctrl+s''] ''Save'' [] None 5 (initial None))"

text \<open>
  The sequence \<open>a\<close>, \<open>b\<close> registered on a fresh provider, through
  \<open>registerSequenceShortcut\<close> and as a registration request.
\<close>

definition withSequenceAB :: provider where
  "withSequenceAB = registerSequenceShortcut 3 [''a'', ''b''] ''Go'' [] 9 (initial None)"

definition sequenceAB :: provider where
  "sequenceAB = perform (Sequenced 9 [''a'', ''b''] ''Go'' []) 1 (initial None)"

text \<open>The sequence \<open>Cmd\<close>, \<open>K\<close> registered on a fresh provider.\<close>

definition withSequenceCmdK :: provider where
  "withSequenceCmdK = registerSequenceShortcut 3 [''Cmd'', ''K''] ''Palette'' [] 9 (initial None)"

text \<open>Two chord shortcuts registered on a fresh provider within the same millisecond.\<close>

definition sameMillisecond :: provider where
  "sameMillisecond =
     registerShortcut 2 [''b''] ''Second'' [] None 1000
       (registerShortcut 1 [''a''] ''First'' [] None 1000 (initial None))"

text \<open>
  A chord registered at clock reading 1000 on a fresh provider, and the shortcuts that
  this registration and a sequence registration at clock reading 1001 create.
\<close>

definition firstAtThousand :: provider where
  "firstAtThousand = perform (Chord 1 [''a''] ''First'' [] None) 1000 (initial None)"

definition firstShortcut :: shortcut where
  "firstShortcut =
     \<lparr> description = [], hold = False, holdDuration = 0, id_str = ''rs'', keys = [''a''],
       method_fn = 1, sequence = False, title = ''First'' \<rparr>"

definition secondShortcut :: shortcut where
  "secondShortcut =
     \<lparr> description = [], hold = False, holdDuration = 0, id_str = ''rt'', keys = [''g'', ''g''],
       method_fn = 2, sequence = True, title = ''Second'' \<rparr>"

text \<open>
  A hold shortcut of 300ms on the bare key \<open>s\<close>, registered on a fresh provider; the
  provider just after \<open>s\<close> is then pressed with the control key held; the provider just
  after \<open>s\<close> alone is pressed instead; and the provider after that press has fired, the
  key has been released and \<open>s\<close> is pressed again.
\<close>

definition holdOnS :: provider where
  "holdOnS = registerShortcut 7 [''s''] ''Hold'' [] (Some 300) 1 (initial None)"

definition holdOnS_ctrlPressed :: provider where
  "holdOnS_ctrlPressed = fst (keyDown ctrl_s_event holdOnS)"

definition holdOnS_pressed :: provider where
  "holdOnS_pressed = fst (keyDown s_event holdOnS)"

definition holdOnS_pressedAgain :: provider where
  "holdOnS_pressedAgain =
     fst (keyDown s_event (keyUp s_event (fst (elapse 400 holdOnS_pressed))))"

text \<open>
  A hold shortcut of 300ms on \<open>ctrl+s\<close>, registered on a fresh provider, and the provider
  just after \<open>ctrl+s\<close> is then pressed.
\<close>

definition holdOnCtrlS :: provider where
  "holdOnCtrlS = registerShortcut 7 [''ctrl+s''] ''Hold'' [] (Some 300) 1 (initial None)"

definition holdOnCtrlS_pressed :: provider where
  "holdOnCtrlS_pressed = fst (keyDown ctrl_s_event holdOnCtrlS)"

section \<open>Facts about strings\<close>

lemma toLowerCase_char_cases:
  "toLowerCase_char c = c \<or> toLowerCase_char c \<in> set lower_chars"
proof (cases "map_of (zip upper_chars lower_chars) c")
  case None
  then show ?thesis by (simp add: toLowerCase_char_def)
next
  case (Some l)
  then have "l \<in> set lower_chars"
    by (meson map_of_SomeD set_zip_rightD)
  with Some show ?thesis by (simp add: toLowerCase_char_def)
qed

lemma lower_chars_fixed: "list_all (\<lambda>l. toLowerCase_char l = l \<and> l \<noteq> CHR ''+'' \<and> l \<noteq> CHR '','') lower_chars"
  by code_simp

lemma toLowerCase_char_plus [simp]: "toLowerCase_char c = CHR ''+'' \<longleftrightarrow> c = CHR ''+''"
proof
  assume "toLowerCase_char c = CHR ''+''"
  with toLowerCase_char_cases [of c] lower_chars_fixed show "c = CHR ''+''"
    by (auto simp: list_all_iff)
next
  assume "c = CHR ''+''"
  moreover have "toLowerCase_char (CHR ''+'') = CHR ''+''" by code_simp
  ultimately show "toLowerCase_char c = CHR ''+''" by simp
qed

lemma toLowerCase_char_comma [simp]: "toLowerCase_char c = CHR '','' \<longleftrightarrow> c = CHR '',''"
proof
  assume "toLowerCase_char c = CHR '',''"
  with toLowerCase_char_cases [of c] lower_chars_fixed show "c = CHR '',''"
    by (auto simp: list_all_iff)
next
  assume "c = CHR '',''"
  moreover have "toLowerCase_char (CHR '','') = CHR '',''" by code_simp
  ultimately show "toLowerCase_char c = CHR '',''" by simp
qed

lemma toLowerCase_char_idem [simp]: "toLowerCase_char (toLowerCase_char c) = toLowerCase_char c"
proof (cases "toLowerCase_char c = c")
  case True
  then show ?thesis by simp
next
  case False
  with toLowerCase_char_cases [of c] have "toLowerCase_char c \<in> set lower_chars"
    by blast
  with lower_chars_fixed show ?thesis
    unfolding list_all_iff by blast
qed

lemma toLowerCase_idem [simp]: "toLowerCase (toLowerCase s) = toLowerCase s"
  by (simp add: toLowerCase_def)

lemma toLowerCase_plus [simp]: "CHR ''+'' \<in> set (toLowerCase s) \<longleftrightarrow> CHR ''+'' \<in> set s"
proof -
  have "CHR ''+'' \<in> toLowerCase_char ` set s \<longleftrightarrow> CHR ''+'' \<in> set s"
    by (metis (no_types) image_iff toLowerCase_char_plus)
  then show ?thesis by (simp add: toLowerCase_def)
qed

lemma split_not_Nil [simp]: "split sep s \<noteq> []"
  by (induction s) (auto split: list.splits)

lemma split_no_sep: "seg \<in> set (split sep s) \<Longrightarrow> sep \<notin> set seg"
  by (induction s arbitrary: seg) (auto split: list.splits if_splits)

lemma join_Cons: "xs \<noteq> [] \<Longrightarrow> join sep (x # xs) = x @ sep @ join sep xs"
  by (cases xs) auto

lemma split_append_no_sep:
  "sep \<notin> set x \<Longrightarrow> split sep (x @ sep # rest) = x # split sep rest"
  by (induction x) (auto split: list.splits)

lemma split_single: "sep \<notin> set x \<Longrightarrow> split sep x = [x]"
  by (induction x) (auto split: list.splits)

lemma split_join:
  "xs \<noteq> [] \<Longrightarrow> \<forall>x\<in>set xs. sep \<notin> set x \<Longrightarrow> split sep (join [sep] xs) = xs"
proof (induction xs)
  case Nil
  then show ?case by simp
next
  case (Cons x xs)
  show ?case
  proof (cases xs)
    case Nil
    with Cons.prems show ?thesis by (simp add: split_single)
  next
    case (Cons y ys)
    with Cons.prems Cons.IH show ?thesis
      by (simp add: split_append_no_sep)
  qed
qed

lemma join_split: "join [sep] (split sep s) = s"
proof (induction s)
  case Nil
  then show ?case by simp
next
  case (Cons c cs)
  show ?case
  proof (cases "c = sep")
    case True
    with Cons show ?thesis by (simp add: join_Cons)
  next
    case False
    obtain seg segs where sp: "split sep cs = seg # segs"
      by (cases "split sep cs") auto
    with Cons False show ?thesis by (cases segs) auto
  qed
qed

lemma transformKey_spec: "transformKey t = spec_token t"
  by (simp add: transformKey_def spec_token_def Let_def)

lemma transformKey_eq: "transformKey = spec_token"
  by (rule ext) (rule transformKey_spec)

lemma transformKey_no_plus: "CHR ''+'' \<notin> set t \<Longrightarrow> CHR ''+'' \<notin> set (transformKey t)"
  by (simp add: transformKey_def Let_def)

lemma toLowerCase_aliases:
  "toLowerCase ''alt'' = ''alt''" "toLowerCase ''ctrl'' = ''ctrl''" "toLowerCase ''meta'' = ''meta''"
  by code_simp+

lemma transformKey_idem: "transformKey (transformKey t) = transformKey t"
  by (simp add: transformKey_def Let_def toLowerCase_aliases)

lemma transformKeys_map: "transformKeys ks = map transformCombo ks"
  by (simp add: transformKeys_def)

lemma transformCombo_eq:
  "transformCombo raw = join ''+'' (map transformKey (split (CHR ''+'') raw))"
  by (simp add: transformCombo_def Let_def)

lemma split_transformCombo:
  "split (CHR ''+'') (transformCombo raw) = map transformKey (split (CHR ''+'') raw)"
proof -
  have "\<forall>x\<in>set (map transformKey (split (CHR ''+'') raw)). CHR ''+'' \<notin> set x"
    using split_no_sep [of _ "CHR ''+''" raw] by (auto simp: transformKey_no_plus)
  then show ?thesis
    unfolding transformCombo_eq by (intro split_join) simp_all
qed

lemma transformCombo_idem: "transformCombo (transformCombo raw) = transformCombo raw"
proof -
  have "transformCombo (transformCombo raw) =
        join ''+'' (map transformKey (map transformKey (split (CHR ''+'') raw)))"
    by (simp only: transformCombo_eq [of "transformCombo raw"] split_transformCombo)
  also have "\<dots> = transformCombo raw"
    by (simp add: transformCombo_eq transformKey_idem comp_def)
  finally show ?thesis .
qed

lemma transformKeys_idem: "transformKeys (transformKeys ks) = transformKeys ks"
  by (simp add: transformKeys_map transformCombo_idem)

section \<open>The normaliser\<close>

text \<open>
  C6.  For every list of raw combination strings, \<open>transformKeys\<close> returns a list of the
  same length; the \<open>+\<close>-segments of each result are the segments of the input, each
  lower-cased with \<open>opt\<close>/\<open>option\<close> rewritten to \<open>alt\<close>, \<open>control\<close> to \<open>ctrl\<close>,
  \<open>cmd\<close>/\<open>command\<close> to \<open>meta\<close> and every other token only lower-cased; the whole
  result is the one the specification's normaliser gives; and
  \<open>transformKeys ["Cmd+K"] = ["meta+k"]\<close>.  (Purity and determinism are those of a HOL
  function.)
\<close>

theorem C6_transformKeys:
  "length (transformKeys ks) = length ks \<and>
   (\<forall>i<length ks.
      split (CHR ''+'') (transformKeys ks ! i) = map spec_token (split (CHR ''+'') (ks ! i))) \<and>
   transformKeys ks = spec_normalize ks \<and>
   transformKeys [''Cmd+K''] = [''meta+k'']"
proof (intro conjI allI impI)
  show "length (transformKeys ks) = length ks"
    by (simp add: transformKeys_def)
next
  fix i assume "i < length ks"
  then have "transformKeys ks ! i = transformCombo (ks ! i)"
    by (simp add: transformKeys_map)
  moreover have "map transformKey (split (CHR ''+'') (ks ! i)) =
                 map spec_token (split (CHR ''+'') (ks ! i))"
    by (simp add: transformKey_spec)
  ultimately show "split (CHR ''+'') (transformKeys ks ! i) =
                   map spec_token (split (CHR ''+'') (ks ! i))"
    by (simp add: split_transformCombo)
next
  show "transformKeys ks = spec_normalize ks"
    by (simp add: transformKeys_map spec_normalize_def transformCombo_eq transformKey_eq)
next
  show "transformKeys [''Cmd+K''] = [''meta+k'']"
    by code_simp
qed

theorem C6_transformKeys_witness:
  "length (transformKeys [''Option+Shift+A'']) = 1 \<and>
   (0::nat) < length [''Option+Shift+A''] \<and>
   split (CHR ''+'') (transformKeys [''Option+Shift+A''] ! 0) = [''alt'', ''shift'', ''a'']"
proof -
  have "map spec_token (split (CHR ''+'') ''Option+Shift+A'') = [''alt'', ''shift'', ''a'']"
    by code_simp
  moreover have "length (transformKeys [''Option+Shift+A'']) = length [''Option+Shift+A'']"
    and "\<forall>i<length [''Option+Shift+A''].
           split (CHR ''+'') (transformKeys [''Option+Shift+A''] ! i) =
           map spec_token (split (CHR ''+'') ([''Option+Shift+A''] ! i))"
    using C6_transformKeys [of "[''Option+Shift+A'']"] by blast+
  ultimately show ?thesis by simp
qed

section \<open>Facts about state updates\<close>

lemma fold_assign:
  "fold (\<lambda>v q. q\<lparr> shortcuts := v \<rparr>) vs p = (if vs = [] then p else p\<lparr> shortcuts := last vs \<rparr>)"
  by (induction vs arbitrary: p) simp_all

lemma flush_eq:
  "flush p = (if pending p = [] then p else p\<lparr> shortcuts := last (pending p), pending := [] \<rparr>)"
  by (cases p) (simp add: flush_def fold_assign)

lemma flush_setState: "flush (setState v p) = p\<lparr> shortcuts := v, pending := [] \<rparr>"
  by (simp add: setState_def Let_def flush_eq)

lemma setState_outside: "\<not> batching p \<Longrightarrow> setState v p = p\<lparr> shortcuts := v, pending := [] \<rparr>"
  by (simp add: setState_def Let_def flush_eq)

lemma setState_inside: "batching p \<Longrightarrow> setState v p = p\<lparr> pending := pending p @ [v] \<rparr>"
  by (simp add: setState_def Let_def)

lemma flush_frame [simp]:
  "holdDurations (flush p) = holdDurations p"
  "holdInterval (flush p) = holdInterval p"
  "holdListeners (flush p) = holdListeners p"
  "holdTimer (flush p) = holdTimer p"
  "keysDown (flush p) = keysDown p"
  "listeners (flush p) = listeners p"
  "previousKeys (flush p) = previousKeys p"
  "sequenceListeners (flush p) = sequenceListeners p"
  "sequenceTimer (flush p) = sequenceTimer p"
  "ignoreTagNames (flush p) = ignoreTagNames p"
  "timers (flush p) = timers p"
  "nextHandle (flush p) = nextHandle p"
  "batching (flush p) = batching p"
  by (simp_all add: flush_eq)

lemma setState_frame [simp]:
  "holdDurations (setState v p) = holdDurations p"
  "holdInterval (setState v p) = holdInterval p"
  "holdListeners (setState v p) = holdListeners p"
  "holdTimer (setState v p) = holdTimer p"
  "keysDown (setState v p) = keysDown p"
  "listeners (setState v p) = listeners p"
  "previousKeys (setState v p) = previousKeys p"
  "sequenceListeners (setState v p) = sequenceListeners p"
  "sequenceTimer (setState v p) = sequenceTimer p"
  "ignoreTagNames (setState v p) = ignoreTagNames p"
  "timers (setState v p) = timers p"
  "nextHandle (setState v p) = nextHandle p"
  "batching (setState v p) = batching p"
  by (simp_all add: setState_def Let_def)

section \<open>Facts about registration\<close>

lemma exists_fold:
  "fold (\<lambda>existingKey ex. ex \<or> list_ex (\<lambda>k. k = existingKey) tks) ks b \<longleftrightarrow>
   b \<or> (\<exists>k\<in>set tks. k \<in> set ks)"
  by (induction ks arbitrary: b) (auto simp: list_ex_iff)

lemma sequence_exists_fold:
  "fold (\<lambda>existingKey ex. ex \<or> keyEvent = existingKey) ks b \<longleftrightarrow> b \<or> keyEvent \<in> set ks"
  by (induction ks arbitrary: b) auto

lemma match_fold:
  "fold (\<lambda>shortcutKey match. match \<and> shortcutKey \<in> set tks) ks b \<longleftrightarrow> b \<and> set ks \<subseteq> set tks"
  by (induction ks arbitrary: b) auto

lemma fold_listeners:
  "fold (\<lambda>k q. q\<lparr> listeners := AList.update k m (listeners q) \<rparr>) ks p =
   p\<lparr> listeners := fold (\<lambda>k. AList.update k m) ks (listeners p) \<rparr>"
  by (induction ks arbitrary: p) simp_all

lemma fold_holdListeners:
  "fold (\<lambda>k q. q\<lparr> holdDurations := AList.update k d (holdDurations q),
                  holdListeners := AList.update k m (holdListeners q) \<rparr>) ks p =
   p\<lparr> holdDurations := fold (\<lambda>k. AList.update k d) ks (holdDurations p),
      holdListeners := fold (\<lambda>k. AList.update k m) ks (holdListeners p) \<rparr>"
  by (induction ks arbitrary: p) simp_all

lemma fold_delete:
  "fold (\<lambda>k q. q\<lparr> listeners := AList.delete k (listeners q),
                  holdListeners := AList.delete k (holdListeners q),
                  holdDurations := AList.delete k (holdDurations q) \<rparr>) ks p =
   p\<lparr> listeners := fold AList.delete ks (listeners p),
      holdListeners := fold AList.delete ks (holdListeners p),
      holdDurations := fold AList.delete ks (holdDurations p) \<rparr>"
  by (induction ks arbitrary: p) simp_all

lemma map_of_fold_update:
  "map_of (fold (\<lambda>k. AList.update k v) ks al) x = (if x \<in> set ks then Some v else map_of al x)"
  by (induction ks arbitrary: al) (auto simp: update_conv')

lemma dom_fold_update:
  "fst ` set (fold (\<lambda>k. AList.update k v) ks al) = set ks \<union> fst ` set al"
  by (induction ks arbitrary: al) (auto simp: dom_update)

lemma fold_delete_absent:
  "\<forall>k\<in>set ks. k \<notin> fst ` set al \<Longrightarrow> fold AList.delete ks al = al"
  by (induction ks arbitrary: al) simp_all

lemma update_absent: "k \<notin> fst ` set al \<Longrightarrow> AList.update k v al = al @ [(k, v)]"
  by (induction al) auto

lemma filter_key_absent: "k \<notin> fst ` set al \<Longrightarrow> filter (\<lambda>x. fst x = k) al = []"
  by (induction al) auto

lemma registerShortcut_conflict:
  "\<exists>k\<in>set (transformKeys rawKeys). k \<in> fst ` set (targetTable holdDur p) \<Longrightarrow>
   registerShortcut m rawKeys ttl descr holdDur now p = p"
  by (auto simp: registerShortcut_def Let_def exists_fold)

lemma registerShortcut_instant:
  "\<forall>k\<in>set (transformKeys rawKeys). k \<notin> fst ` set (listeners p) \<Longrightarrow>
   registerShortcut m rawKeys ttl descr None now p =
   setState
     (shortcuts p @
        [\<lparr> description = descr, hold = False, holdDuration = 0, id_str = toString36 now,
           keys = transformKeys rawKeys, method_fn = m, sequence = False, title = ttl \<rparr>])
     (p\<lparr> listeners := fold (\<lambda>k. AList.update k m) (transformKeys rawKeys) (listeners p) \<rparr>)"
  by (simp add: registerShortcut_def Let_def exists_fold targetTable_def fold_listeners)

lemma registerShortcut_hold:
  "\<forall>k\<in>set (transformKeys rawKeys). k \<notin> fst ` set (holdListeners p) \<Longrightarrow>
   registerShortcut m rawKeys ttl descr (Some d) now p =
   setState
     (shortcuts p @
        [\<lparr> description = descr, hold = True, holdDuration = d, id_str = toString36 now,
           keys = transformKeys rawKeys, method_fn = m, sequence = False, title = ttl \<rparr>])
     (p\<lparr> holdDurations := fold (\<lambda>k. AList.update k d) (transformKeys rawKeys) (holdDurations p),
        holdListeners := fold (\<lambda>k. AList.update k m) (transformKeys rawKeys) (holdListeners p) \<rparr>)"
  by (simp add: registerShortcut_def Let_def exists_fold targetTable_def fold_holdListeners)

lemma registerSequenceShortcut_conflict:
  "toLowerCase (join '','' rawKeys) \<in> fst ` set (sequenceListeners p) \<Longrightarrow>
   registerSequenceShortcut m rawKeys ttl descr now p = p"
  by (simp add: registerSequenceShortcut_def Let_def sequence_exists_fold)

lemma registerSequenceShortcut_fresh:
  "toLowerCase (join '','' rawKeys) \<notin> fst ` set (sequenceListeners p) \<Longrightarrow>
   registerSequenceShortcut m rawKeys ttl descr now p =
   setState
     (shortcuts p @
        [\<lparr> description = descr, hold = False, holdDuration = 0, id_str = toString36 now,
           keys = rawKeys, method_fn = m, sequence = True, title = ttl \<rparr>])
     (p\<lparr> sequenceListeners :=
          AList.update (toLowerCase (join '','' rawKeys)) m (sequenceListeners p) \<rparr>)"
  by (simp add: registerSequenceShortcut_def Let_def sequence_exists_fold)

lemma registerShortcut_target_has:
  "transformCombo raw \<in> fst ` set (targetTable holdDur (registerShortcut m [raw] ttl descr holdDur now p))"
proof (cases "transformCombo raw \<in> fst ` set (targetTable holdDur p)")
  case True
  then show ?thesis by (simp add: registerShortcut_conflict transformKeys_def)
next
  case False
  then show ?thesis
    by (cases holdDur)
       (simp_all add: registerShortcut_instant registerShortcut_hold transformKeys_def
          targetTable_def dom_update)
qed

lemma targetTable_mode:
  "(holdDur = None \<longleftrightarrow> holdDur' = None) \<Longrightarrow> targetTable holdDur' p = targetTable holdDur p"
  by (auto simp: targetTable_def)

lemma registerSequenceShortcut_has:
  "toLowerCase (join '','' rawKeys) \<in>
     fst ` set (sequenceListeners (registerSequenceShortcut m rawKeys ttl descr now p))"
  by (cases "toLowerCase (join '','' rawKeys) \<in> fst ` set (sequenceListeners p)")
     (simp_all add: registerSequenceShortcut_conflict registerSequenceShortcut_fresh dom_update)

text \<open>
  C4.  A registration whose request has a canonical combination that is already a key of
  its target table (the hold table when a hold duration is given, the instantaneous table
  otherwise; the sequence table for a sequence, whose key is the lower-cased comma-joined
  list) leaves the provider exactly as it was: no routing entry and no shortcut is added
  or changed.  In particular a second registration of the same canonical combination in
  the same mode changes nothing, and when the combination was free before the first
  registration, the target table afterwards holds exactly one entry for it, the first
  registration's handler, and the snapshot has grown by one shortcut only: at once when
  the calls are made outside a batch, and once React has applied the queued update in
  any case.
\<close>

theorem C4_conflicting_registration_dropped:
  "((\<exists>k\<in>set (transformKeys rawKeys). k \<in> fst ` set (targetTable holdDur p)) \<longrightarrow>
      registerShortcut m rawKeys ttl descr holdDur now p = p) \<and>
   (toLowerCase (join '','' rawKeys) \<in> fst ` set (sequenceListeners p) \<longrightarrow>
      registerSequenceShortcut m rawKeys ttl descr now p = p) \<and>
   ((holdDur = None \<longleftrightarrow> holdDur' = None) \<and> transformCombo raw' = transformCombo raw \<longrightarrow>
      registerShortcut m' [raw'] ttl' descr' holdDur' now'
        (registerShortcut m [raw] ttl descr holdDur now p) =
      registerShortcut m [raw] ttl descr holdDur now p) \<and>
   ((holdDur = None \<longleftrightarrow> holdDur' = None) \<and> transformCombo raw' = transformCombo raw \<and>
    transformCombo raw \<notin> fst ` set (targetTable holdDur p) \<longrightarrow>
      filter (\<lambda>x. fst x = transformCombo raw)
        (targetTable holdDur
          (registerShortcut m' [raw'] ttl' descr' holdDur' now'
            (registerShortcut m [raw] ttl descr holdDur now p))) = [(transformCombo raw, m)] \<and>
      length (shortcuts (flush
          (registerShortcut m' [raw'] ttl' descr' holdDur' now'
            (registerShortcut m [raw] ttl descr holdDur now p)))) = Suc (length (shortcuts p)) \<and>
      (\<not> batching p \<longrightarrow>
         length (shortcuts
             (registerShortcut m' [raw'] ttl' descr' holdDur' now'
               (registerShortcut m [raw] ttl descr holdDur now p))) = Suc (length (shortcuts p)))) \<and>
   (toLowerCase (join '','' rawKeys') = toLowerCase (join '','' rawKeys) \<longrightarrow>
      registerSequenceShortcut m' rawKeys' ttl' descr' now'
        (registerSequenceShortcut m rawKeys ttl descr now p) =
      registerSequenceShortcut m rawKeys ttl descr now p)"
proof -
  let ?p1 = "registerShortcut m [raw] ttl descr holdDur now p"
  let ?p2 = "registerShortcut m' [raw'] ttl' descr' holdDur' now' ?p1"
  let ?q1 = "registerSequenceShortcut m rawKeys ttl descr now p"
  have chord: "(\<exists>k\<in>set (transformKeys rawKeys). k \<in> fst ` set (targetTable holdDur p)) \<longrightarrow>
      registerShortcut m rawKeys ttl descr holdDur now p = p"
    by (simp add: registerShortcut_conflict)
  have seq: "toLowerCase (join '','' rawKeys) \<in> fst ` set (sequenceListeners p) \<longrightarrow>
      registerSequenceShortcut m rawKeys ttl descr now p = p"
    by (simp add: registerSequenceShortcut_conflict)
  have same: "?p2 = ?p1"
    if a: "(holdDur = None \<longleftrightarrow> holdDur' = None) \<and> transformCombo raw' = transformCombo raw"
  proof -
    from a have "transformCombo raw' \<in> fst ` set (targetTable holdDur' ?p1)"
      using registerShortcut_target_has [of raw holdDur m ttl descr now p]
      by (simp add: targetTable_mode [of holdDur holdDur'])
    then show ?thesis
      by (intro registerShortcut_conflict) (simp add: transformKeys_def)
  qed
  have once: "filter (\<lambda>x. fst x = transformCombo raw) (targetTable holdDur ?p1) =
        [(transformCombo raw, m)] \<and>
      length (shortcuts (flush ?p1)) = Suc (length (shortcuts p)) \<and>
      (\<not> batching p \<longrightarrow> length (shortcuts ?p1) = Suc (length (shortcuts p)))"
    if absent: "transformCombo raw \<notin> fst ` set (targetTable holdDur p)"
  proof (cases holdDur)
    case None
    with absent show ?thesis
      by (simp add: registerShortcut_instant transformKeys_def targetTable_def
            update_absent filter_key_absent flush_setState setState_outside)
  next
    case (Some d)
    with absent show ?thesis
      by (simp add: registerShortcut_hold transformKeys_def targetTable_def
            update_absent filter_key_absent flush_setState setState_outside)
  qed
  have twice: "(holdDur = None \<longleftrightarrow> holdDur' = None) \<and> transformCombo raw' = transformCombo raw \<longrightarrow>
      ?p2 = ?p1"
    using same by blast
  have entry: "(holdDur = None \<longleftrightarrow> holdDur' = None) \<and> transformCombo raw' = transformCombo raw \<and>
      transformCombo raw \<notin> fst ` set (targetTable holdDur p) \<longrightarrow>
      filter (\<lambda>x. fst x = transformCombo raw) (targetTable holdDur ?p2) =
        [(transformCombo raw, m)] \<and>
      length (shortcuts (flush ?p2)) = Suc (length (shortcuts p)) \<and>
      (\<not> batching p \<longrightarrow> length (shortcuts ?p2) = Suc (length (shortcuts p)))"
    using same once by auto
  have seq_twice: "toLowerCase (join '','' rawKeys') = toLowerCase (join '','' rawKeys) \<longrightarrow>
      registerSequenceShortcut m' rawKeys' ttl' descr' now' ?q1 = ?q1"
  proof
    assume "toLowerCase (join '','' rawKeys') = toLowerCase (join '','' rawKeys)"
    then have "toLowerCase (join '','' rawKeys') \<in> fst ` set (sequenceListeners ?q1)"
      using registerSequenceShortcut_has [of rawKeys m ttl descr now p] by simp
    then show "registerSequenceShortcut m' rawKeys' ttl' descr' now' ?q1 = ?q1"
      by (rule registerSequenceShortcut_conflict)
  qed
  show ?thesis
    by (intro conjI chord seq twice entry seq_twice)
qed

theorem C4_witness:
  "(\<exists>k\<in>set (transformKeys [''Control+S'']). k \<in> fst ` set (targetTable None withSave)) \<and>
   registerShortcut 2 [''Control+S''] ''Save again'' [] None 5 withSave = withSave \<and>
   toLowerCase (join '','' [''A'', ''B'']) \<in> fst ` set (sequenceListeners withSequenceAB) \<and>
   registerSequenceShortcut 4 [''A'', ''B''] ''Go again'' [] 10 withSequenceAB = withSequenceAB \<and>
   transformCombo ''Control+S'' = transformCombo ''ctrl+s'' \<and>
   transformCombo ''ctrl+s'' \<notin> fst ` set (targetTable None (initial None)) \<and>
   \<not> batching (initial None) \<and>
   filter (\<lambda>x. fst x = ''ctrl+s'')
     (targetTable None (registerShortcut 2 [''Control+S''] ''Save again'' [] None 5 withSave)) =
     [(''ctrl+s'', 1)] \<and>
   length (shortcuts (registerShortcut 2 [''Control+S''] ''Save again'' [] None 5 withSave)) = 1"
proof -
  have nb: "\<not> batching (initial None)"
    by (simp add: initial_def)
  have h1: "\<exists>k\<in>set (transformKeys [''Control+S'']). k \<in> fst ` set (targetTable None withSave)"
    by code_simp
  have h2: "toLowerCase (join '','' [''A'', ''B'']) \<in> fst ` set (sequenceListeners withSequenceAB)"
    by code_simp
  have h3: "transformCombo ''Control+S'' = transformCombo ''ctrl+s'' \<and>
      transformCombo ''ctrl+s'' \<notin> fst ` set (targetTable None (initial None))"
    by code_simp
  have ck: "transformCombo ''ctrl+s'' = ''ctrl+s''" by code_simp
  note chord = C4_conflicting_registration_dropped
      [where rawKeys = "[''Control+S'']" and holdDur = None and p = withSave and m = 2
         and ttl = "''Save again''" and descr = "[]" and now = 5]
  from h1 chord have 1: "registerShortcut 2 [''Control+S''] ''Save again'' [] None 5 withSave = withSave"
    by blast
  from h2 C4_conflicting_registration_dropped
      [where rawKeys = "[''A'', ''B'']" and p = withSequenceAB and m = 4
         and ttl = "''Go again''" and descr = "[]" and now = 10]
  have 2: "registerSequenceShortcut 4 [''A'', ''B''] ''Go again'' [] 10 withSequenceAB = withSequenceAB"
    by blast
  from h3 nb C4_conflicting_registration_dropped
      [where raw = "''ctrl+s''" and raw' = "''Control+S''" and holdDur = None and holdDur' = None
         and p = "initial None" and m = 1 and ttl = "''Save''" and descr = "''saves''" and now = 4
         and m' = 2 and ttl' = "''Save again''" and descr' = "[]" and now' = 5]
  have "filter (\<lambda>x. fst x = transformCombo ''ctrl+s'')
      (targetTable None
        (registerShortcut 2 [''Control+S''] ''Save again'' [] None 5
          (registerShortcut 1 [''ctrl+s''] ''Save'' ''saves'' None 4 (initial None)))) =
      [(transformCombo ''ctrl+s'', 1)] \<and>
    length (shortcuts
        (registerShortcut 2 [''Control+S''] ''Save again'' [] None 5
          (registerShortcut 1 [''ctrl+s''] ''Save'' ''saves'' None 4 (initial None)))) =
      Suc (length (shortcuts (initial None)))"
    by blast
  moreover have "shortcuts (initial None) = []"
    by (simp add: initial_def)
  ultimately have 3: "filter (\<lambda>x. fst x = ''ctrl+s'')
      (targetTable None (registerShortcut 2 [''Control+S''] ''Save again'' [] None 5 withSave)) =
      [(''ctrl+s'', 1)] \<and>
    length (shortcuts (registerShortcut 2 [''Control+S''] ''Save again'' [] None 5 withSave)) = 1"
    unfolding withSave_def ck by simp
  from h1 h2 h3 nb 1 2 3 show ?thesis by blast
qed

text \<open>
  C7.  For every raw combination whose canonical form is a key of neither the
  instantaneous nor the hold table, registering it as an instantaneous shortcut and as a
  hold shortcut succeeds for both, in either order and in every calling context: neither
  call is dropped by the conflict check, and afterwards the instantaneous table maps the
  canonical combination to the instantaneous handler and the hold table maps it to the
  hold handler with its duration.  Each call hands \<open>setState\<close> the snapshot it read with its
  own shortcut appended.  Outside a batch the snapshot therefore has the two new
  shortcuts at its end, in the order of the calls.  Inside a batch both calls read the
  same snapshot and queue one update each, and when React applies the queue the later
  update replaces the earlier one.
\<close>

theorem C7_independent_tables:
  "transformCombo raw \<notin> fst ` set (listeners p) \<and>
   transformCombo raw \<notin> fst ` set (holdListeners p) \<longrightarrow>
   (let p1 = registerShortcut m1 [raw] t1 d1 None n1 p;
        p2 = registerShortcut m2 [raw] t2 d2 (Some dur) n2 p1
    in p1 \<noteq> p \<and> p2 \<noteq> p1 \<and>
       map_of (listeners p2) (transformCombo raw) = Some m1 \<and>
       map_of (holdListeners p2) (transformCombo raw) = Some m2 \<and>
       map_of (holdDurations p2) (transformCombo raw) = Some dur \<and>
       (\<not> batching p \<longrightarrow>
          map (\<lambda>s. (method_fn s, hold s, keys s)) (shortcuts p2) =
            map (\<lambda>s. (method_fn s, hold s, keys s)) (shortcuts p) @
            [(m1, False, [transformCombo raw]), (m2, True, [transformCombo raw])]) \<and>
       (batching p \<longrightarrow>
          shortcuts p2 = shortcuts p \<and>
          map (map (\<lambda>s. (method_fn s, hold s, keys s))) (pending p2) =
            map (map (\<lambda>s. (method_fn s, hold s, keys s))) (pending p) @
            [map (\<lambda>s. (method_fn s, hold s, keys s)) (shortcuts p) @
               [(m1, False, [transformCombo raw])],
             map (\<lambda>s. (method_fn s, hold s, keys s)) (shortcuts p) @
               [(m2, True, [transformCombo raw])]] \<and>
          map (\<lambda>s. (method_fn s, hold s, keys s)) (shortcuts (endBatch p2)) =
            map (\<lambda>s. (method_fn s, hold s, keys s)) (shortcuts p) @
            [(m2, True, [transformCombo raw])])) \<and>
   (let p1 = registerShortcut m2 [raw] t2 d2 (Some dur) n2 p;
        p2 = registerShortcut m1 [raw] t1 d1 None n1 p1
    in p1 \<noteq> p \<and> p2 \<noteq> p1 \<and>
       map_of (listeners p2) (transformCombo raw) = Some m1 \<and>
       map_of (holdListeners p2) (transformCombo raw) = Some m2 \<and>
       map_of (holdDurations p2) (transformCombo raw) = Some dur \<and>
       (\<not> batching p \<longrightarrow>
          map (\<lambda>s. (method_fn s, hold s, keys s)) (shortcuts p2) =
            map (\<lambda>s. (method_fn s, hold s, keys s)) (shortcuts p) @
            [(m2, True, [transformCombo raw]), (m1, False, [transformCombo raw])]) \<and>
       (batching p \<longrightarrow>
          shortcuts p2 = shortcuts p \<and>
          map (map (\<lambda>s. (method_fn s, hold s, keys s))) (pending p2) =
            map (map (\<lambda>s. (method_fn s, hold s, keys s))) (pending p) @
            [map (\<lambda>s. (method_fn s, hold s, keys s)) (shortcuts p) @
               [(m2, True, [transformCombo raw])],
             map (\<lambda>s. (method_fn s, hold s, keys s)) (shortcuts p) @
               [(m1, False, [transformCombo raw])]] \<and>
          map (\<lambda>s. (method_fn s, hold s, keys s)) (shortcuts (endBatch p2)) =
            map (\<lambda>s. (method_fn s, hold s, keys s)) (shortcuts p) @
            [(m1, False, [transformCombo raw])]))"
proof (intro impI, elim conjE)
  let ?ck = "transformCombo raw"
  let ?f = "\<lambda>s. (method_fn s, hold s, keys s)"
  assume i: "?ck \<notin> fst ` set (listeners p)" and h: "?ck \<notin> fst ` set (holdListeners p)"
  let ?s1 = "\<lparr> description = d1, hold = False, holdDuration = 0, id_str = toString36 n1,
           keys = [?ck], method_fn = m1, sequence = False, title = t1 \<rparr>"
  let ?s2 = "\<lparr> description = d2, hold = True, holdDuration = dur, id_str = toString36 n2,
           keys = [?ck], method_fn = m2, sequence = False, title = t2 \<rparr>"
  let ?a = "registerShortcut m1 [raw] t1 d1 None n1 p"
  let ?b = "registerShortcut m2 [raw] t2 d2 (Some dur) n2 p"
  let ?ab = "registerShortcut m2 [raw] t2 d2 (Some dur) n2 ?a"
  let ?ba = "registerShortcut m1 [raw] t1 d1 None n1 ?b"
  have a: "?a = setState (shortcuts p @ [?s1]) (p\<lparr> listeners := AList.update ?ck m1 (listeners p) \<rparr>)"
    using i by (simp add: registerShortcut_instant transformKeys_def)
  have b: "?b = setState (shortcuts p @ [?s2])
      (p\<lparr> holdDurations := AList.update ?ck dur (holdDurations p),
         holdListeners := AList.update ?ck m2 (holdListeners p) \<rparr>)"
    using h by (simp add: registerShortcut_hold transformKeys_def)
  have ab: "?ab = setState (shortcuts ?a @ [?s2])
      (?a\<lparr> holdDurations := AList.update ?ck dur (holdDurations ?a),
         holdListeners := AList.update ?ck m2 (holdListeners ?a) \<rparr>)"
    using h by (subst registerShortcut_hold) (simp_all add: a transformKeys_def)
  have ba: "?ba = setState (shortcuts ?b @ [?s1]) (?b\<lparr> listeners := AList.update ?ck m1 (listeners ?b) \<rparr>)"
    using i by (subst registerShortcut_instant) (simp_all add: b transformKeys_def)
  have la: "map_of (listeners ?a) ?ck = Some m1" "holdListeners ?a = holdListeners p"
    "holdDurations ?a = holdDurations p" "batching ?a = batching p"
    by (simp_all add: a update_conv')
  have lb: "map_of (holdListeners ?b) ?ck = Some m2" "map_of (holdDurations ?b) ?ck = Some dur"
    "listeners ?b = listeners p" "batching ?b = batching p"
    by (simp_all add: b update_conv')
  have lab: "map_of (listeners ?ab) ?ck = Some m1" "map_of (holdListeners ?ab) ?ck = Some m2"
    "map_of (holdDurations ?ab) ?ck = Some dur"
    by (simp_all add: ab la update_conv')
  have lba: "map_of (listeners ?ba) ?ck = Some m1" "map_of (holdListeners ?ba) ?ck = Some m2"
    "map_of (holdDurations ?ba) ?ck = Some dur"
    by (simp_all add: ba lb update_conv')
  from i have ni: "map_of (listeners p) ?ck = None"
    by (simp add: map_of_eq_None_iff)
  from h have nh: "map_of (holdListeners p) ?ck = None"
    by (simp add: map_of_eq_None_iff)
  have ne: "?a \<noteq> p" "?ab \<noteq> ?a" "?b \<noteq> p" "?ba \<noteq> ?b"
  proof -
    show "?a \<noteq> p" using la(1) ni by auto
    show "?ab \<noteq> ?a" using lab(2) la(2) nh by auto
    show "?b \<noteq> p" using lb(1) nh by auto
    show "?ba \<noteq> ?b" using lba(1) lb(3) ni by auto
  qed
  have out: "map ?f (shortcuts ?ab) = map ?f (shortcuts p) @ [(m1, False, [?ck]), (m2, True, [?ck])]"
    "map ?f (shortcuts ?ba) = map ?f (shortcuts p) @ [(m2, True, [?ck]), (m1, False, [?ck])]"
    if "\<not> batching p"
  proof -
    from that have sa: "shortcuts ?a = shortcuts p @ [?s1]" and sb: "shortcuts ?b = shortcuts p @ [?s2]"
      by (simp_all add: a b setState_outside)
    from that la(4) have "shortcuts ?ab = shortcuts ?a @ [?s2]"
      by (subst ab) (simp add: setState_outside)
    with sa show "map ?f (shortcuts ?ab) = map ?f (shortcuts p) @ [(m1, False, [?ck]), (m2, True, [?ck])]"
      by simp
    from that lb(4) have "shortcuts ?ba = shortcuts ?b @ [?s1]"
      by (subst ba) (simp add: setState_outside)
    with sb show "map ?f (shortcuts ?ba) = map ?f (shortcuts p) @ [(m2, True, [?ck]), (m1, False, [?ck])]"
      by simp
  qed
  have inside: "shortcuts ?ab = shortcuts p \<and>
      map (map ?f) (pending ?ab) = map (map ?f) (pending p) @
        [map ?f (shortcuts p) @ [(m1, False, [?ck])], map ?f (shortcuts p) @ [(m2, True, [?ck])]] \<and>
      map ?f (shortcuts (endBatch ?ab)) = map ?f (shortcuts p) @ [(m2, True, [?ck])]"
    "shortcuts ?ba = shortcuts p \<and>
      map (map ?f) (pending ?ba) = map (map ?f) (pending p) @
        [map ?f (shortcuts p) @ [(m2, True, [?ck])], map ?f (shortcuts p) @ [(m1, False, [?ck])]] \<and>
      map ?f (shortcuts (endBatch ?ba)) = map ?f (shortcuts p) @ [(m1, False, [?ck])]"
    if "batching p"
  proof -
    from that have sa: "shortcuts ?a = shortcuts p" "pending ?a = pending p @ [shortcuts p @ [?s1]]"
      and sb: "shortcuts ?b = shortcuts p" "pending ?b = pending p @ [shortcuts p @ [?s2]]"
      by (simp_all add: a b setState_inside)
    from that la(4) have sab: "shortcuts ?ab = shortcuts ?a" "pending ?ab = pending ?a @ [shortcuts ?a @ [?s2]]"
      by (subst ab, simp add: setState_inside)+
    from that lb(4) have sba: "shortcuts ?ba = shortcuts ?b" "pending ?ba = pending ?b @ [shortcuts ?b @ [?s1]]"
      by (subst ba, simp add: setState_inside)+
    show "shortcuts ?ab = shortcuts p \<and>
      map (map ?f) (pending ?ab) = map (map ?f) (pending p) @
        [map ?f (shortcuts p) @ [(m1, False, [?ck])], map ?f (shortcuts p) @ [(m2, True, [?ck])]] \<and>
      map ?f (shortcuts (endBatch ?ab)) = map ?f (shortcuts p) @ [(m2, True, [?ck])]"
      by (simp add: sab sa endBatch_def flush_eq)
    show "shortcuts ?ba = shortcuts p \<and>
      map (map ?f) (pending ?ba) = map (map ?f) (pending p) @
        [map ?f (shortcuts p) @ [(m2, True, [?ck])], map ?f (shortcuts p) @ [(m1, False, [?ck])]] \<and>
      map ?f (shortcuts (endBatch ?ba)) = map ?f (shortcuts p) @ [(m1, False, [?ck])]"
      by (simp add: sba sb endBatch_def flush_eq)
  qed
  show "(let p1 = ?a; p2 = registerShortcut m2 [raw] t2 d2 (Some dur) n2 p1
    in p1 \<noteq> p \<and> p2 \<noteq> p1 \<and>
       map_of (listeners p2) ?ck = Some m1 \<and>
       map_of (holdListeners p2) ?ck = Some m2 \<and>
       map_of (holdDurations p2) ?ck = Some dur \<and>
       (\<not> batching p \<longrightarrow>
          map ?f (shortcuts p2) = map ?f (shortcuts p) @ [(m1, False, [?ck]), (m2, True, [?ck])]) \<and>
       (batching p \<longrightarrow>
          shortcuts p2 = shortcuts p \<and>
          map (map ?f) (pending p2) = map (map ?f) (pending p) @
            [map ?f (shortcuts p) @ [(m1, False, [?ck])],
             map ?f (shortcuts p) @ [(m2, True, [?ck])]] \<and>
          map ?f (shortcuts (endBatch p2)) = map ?f (shortcuts p) @ [(m2, True, [?ck])])) \<and>
   (let p1 = ?b; p2 = registerShortcut m1 [raw] t1 d1 None n1 p1
    in p1 \<noteq> p \<and> p2 \<noteq> p1 \<and>
       map_of (listeners p2) ?ck = Some m1 \<and>
       map_of (holdListeners p2) ?ck = Some m2 \<and>
       map_of (holdDurations p2) ?ck = Some dur \<and>
       (\<not> batching p \<longrightarrow>
          map ?f (shortcuts p2) = map ?f (shortcuts p) @ [(m2, True, [?ck]), (m1, False, [?ck])]) \<and>
       (batching p \<longrightarrow>
          shortcuts p2 = shortcuts p \<and>
          map (map ?f) (pending p2) = map (map ?f) (pending p) @
            [map ?f (shortcuts p) @ [(m2, True, [?ck])],
             map ?f (shortcuts p) @ [(m1, False, [?ck])]] \<and>
          map ?f (shortcuts (endBatch p2)) = map ?f (shortcuts p) @ [(m1, False, [?ck])]))"
    unfolding Let_def
    using ne lab lba out inside by blast
qed

theorem C7_witness:
  "transformCombo ''ctrl+s'' \<notin> fst ` set (listeners (initial None)) \<and>
   transformCombo ''ctrl+s'' \<notin> fst ` set (holdListeners (initial None)) \<and>
   \<not> batching (initial None) \<and>
   map_of (listeners withSaveAndHold) ''ctrl+s'' = Some 1 \<and>
   map_of (holdListeners withSaveAndHold) ''ctrl+s'' = Some 2 \<and>
   map_of (holdDurations withSaveAndHold) ''ctrl+s'' = Some 300 \<and>
   map (\<lambda>s. (method_fn s, hold s, keys s)) (shortcuts withSaveAndHold) =
     [(1, False, [''ctrl+s'']), (2, True, [''ctrl+s''])] \<and>
   transformCombo ''ctrl+s'' \<notin> fst ` set (listeners (beginBatch (initial None))) \<and>
   transformCombo ''ctrl+s'' \<notin> fst ` set (holdListeners (beginBatch (initial None))) \<and>
   batching (beginBatch (initial None)) \<and>
   map_of (listeners batchedSaveAndHold) ''ctrl+s'' = Some 1 \<and>
   map_of (holdListeners batchedSaveAndHold) ''ctrl+s'' = Some 2 \<and>
   map_of (holdDurations batchedSaveAndHold) ''ctrl+s'' = Some 300 \<and>
   shortcuts batchedSaveAndHold = [] \<and>
   map (map (\<lambda>s. (method_fn s, hold s, keys s))) (pending batchedSaveAndHold) =
     [[(1, False, [''ctrl+s''])], [(2, True, [''ctrl+s''])]] \<and>
   map (\<lambda>s. (method_fn s, hold s, keys s)) (shortcuts (endBatch batchedSaveAndHold)) =
     [(2, True, [''ctrl+s''])]"
proof -
  have h: "transformCombo ''ctrl+s'' \<notin> fst ` set (listeners (initial None)) \<and>
     transformCombo ''ctrl+s'' \<notin> fst ` set (holdListeners (initial None))"
    by (simp add: initial_def)
  have nb: "\<not> batching (initial None)"
    by (simp add: initial_def)
  have hb: "transformCombo ''ctrl+s'' \<notin> fst ` set (listeners (beginBatch (initial None))) \<and>
     transformCombo ''ctrl+s'' \<notin> fst ` set (holdListeners (beginBatch (initial None)))"
    by (simp add: initial_def beginBatch_def)
  have bb: "batching (beginBatch (initial None))"
    by (simp add: beginBatch_def)
  have e: "shortcuts (initial None) = []" "shortcuts (beginBatch (initial None)) = []"
    "pending (beginBatch (initial None)) = []"
    by (simp_all add: initial_def beginBatch_def)
  have ck: "transformCombo ''ctrl+s'' = ''ctrl+s''" by code_simp
  from C7_independent_tables [of "''ctrl+s''" "initial None" 1 "''Save''" "[]" 7
         2 "''Save all''" "[]" 300 8] h nb
  have 1: "map_of (listeners withSaveAndHold) ''ctrl+s'' = Some 1 \<and>
     map_of (holdListeners withSaveAndHold) ''ctrl+s'' = Some 2 \<and>
     map_of (holdDurations withSaveAndHold) ''ctrl+s'' = Some 300 \<and>
     map (\<lambda>s. (method_fn s, hold s, keys s)) (shortcuts withSaveAndHold) =
       map (\<lambda>s. (method_fn s, hold s, keys s)) (shortcuts (initial None)) @
         [(1, False, [''ctrl+s'']), (2, True, [''ctrl+s''])]"
    unfolding Let_def ck withSaveAndHold_def by blast
  from C7_independent_tables [of "''ctrl+s''" "beginBatch (initial None)" 1 "''Save''" "[]" 7
         2 "''Save all''" "[]" 300 8] hb bb
  have 2: "map_of (listeners batchedSaveAndHold) ''ctrl+s'' = Some 1 \<and>
     map_of (holdListeners batchedSaveAndHold) ''ctrl+s'' = Some 2 \<and>
     map_of (holdDurations batchedSaveAndHold) ''ctrl+s'' = Some 300 \<and>
     shortcuts batchedSaveAndHold = shortcuts (beginBatch (initial None)) \<and>
     map (map (\<lambda>s. (method_fn s, hold s, keys s))) (pending batchedSaveAndHold) =
       map (map (\<lambda>s. (method_fn s, hold s, keys s))) (pending (beginBatch (initial None))) @
       [map (\<lambda>s. (method_fn s, hold s, keys s)) (shortcuts (beginBatch (initial None))) @
          [(1, False, [''ctrl+s''])],
        map (\<lambda>s. (method_fn s, hold s, keys s)) (shortcuts (beginBatch (initial None))) @
          [(2, True, [''ctrl+s''])]] \<and>
     map (\<lambda>s. (method_fn s, hold s, keys s)) (shortcuts (endBatch batchedSaveAndHold)) =
       map (\<lambda>s. (method_fn s, hold s, keys s)) (shortcuts (beginBatch (initial None))) @
       [(2, True, [''ctrl+s''])]"
    unfolding Let_def ck batchedSaveAndHold_def by blast
  from 1 2 h nb hb bb show ?thesis
    by (simp add: e)
qed

section \<open>Unregistration\<close>

lemma unregisterShortcut_eq:
  "unregisterShortcut rawKeys isSequence p =
   setState (filter (\<lambda>s. \<not> set (keys s) \<subseteq> set (transformKeys rawKeys)) (shortcuts p))
     (if isSequence
      then p\<lparr> sequenceListeners :=
               AList.delete (join '','' (transformKeys rawKeys)) (sequenceListeners p) \<rparr>
      else p\<lparr> listeners := fold AList.delete (transformKeys rawKeys) (listeners p),
              holdListeners := fold AList.delete (transformKeys rawKeys) (holdListeners p),
              holdDurations := fold AList.delete (transformKeys rawKeys) (holdDurations p) \<rparr>)"
  by (simp add: unregisterShortcut_def Let_def match_fold fold_delete)

lemma unregisterShortcut_absent:
  "routingAbsent rawKeys isSequence p \<Longrightarrow>
   unregisterShortcut rawKeys isSequence p =
   setState (filter (\<lambda>s. \<not> set (keys s) \<subseteq> set (transformKeys rawKeys)) (shortcuts p)) p"
  by (cases isSequence)
     (simp_all add: unregisterShortcut_eq routingAbsent_def fold_delete_absent list_all_iff)

lemma setState_same:
  "\<not> batching p \<Longrightarrow> pending p = [] \<Longrightarrow> setState (shortcuts p) p = p"
  by (cases p) (simp add: setState_outside)

text \<open>
  C5 (as amended).  For every \<open>unregisterShortcut\<close> call, the list it hands to \<open>setState\<close>
  is the snapshot it read without exactly the shortcuts all of whose stored keys occur in
  the request's canonicalised key list (a subset match: extra keys in the request do not
  protect a shortcut).  That list is the snapshot once React has applied the update, and
  outside a batch it is the snapshot as soon as the call returns.  When the request finds
  nothing to delete in the routing tables, the call changes nothing but the snapshot and
  the queue of updates; the snapshot is still filtered by the subset rule.  When, in
  addition, no stored shortcut has all its keys in the request and the call is made
  outside a batch with no update queued, the provider as a whole is unchanged.
\<close>

theorem C5_unregister_subset_removal:
  "shortcuts (flush (unregisterShortcut rawKeys isSequence p)) =
     filter (\<lambda>s. \<not> set (keys s) \<subseteq> set (transformKeys rawKeys)) (shortcuts p) \<and>
   (\<not> batching p \<longrightarrow>
      shortcuts (unregisterShortcut rawKeys isSequence p) =
        filter (\<lambda>s. \<not> set (keys s) \<subseteq> set (transformKeys rawKeys)) (shortcuts p)) \<and>
   (routingAbsent rawKeys isSequence p \<longrightarrow>
      flush (unregisterShortcut rawKeys isSequence p) =
      p\<lparr> shortcuts := filter (\<lambda>s. \<not> set (keys s) \<subseteq> set (transformKeys rawKeys)) (shortcuts p),
         pending := [] \<rparr>) \<and>
   (routingAbsent rawKeys isSequence p \<and> \<not> batching p \<and> pending p = [] \<longrightarrow>
      unregisterShortcut rawKeys isSequence p =
      p\<lparr> shortcuts := shortcuts (unregisterShortcut rawKeys isSequence p) \<rparr>) \<and>
   (routingAbsent rawKeys isSequence p \<and> \<not> batching p \<and> pending p = [] \<and>
    (\<forall>s\<in>set (shortcuts p). \<not> set (keys s) \<subseteq> set (transformKeys rawKeys)) \<longrightarrow>
      unregisterShortcut rawKeys isSequence p = p)"
proof (intro conjI impI)
  show "shortcuts (flush (unregisterShortcut rawKeys isSequence p)) =
     filter (\<lambda>s. \<not> set (keys s) \<subseteq> set (transformKeys rawKeys)) (shortcuts p)"
    by (simp add: unregisterShortcut_eq flush_setState)
next
  assume "\<not> batching p"
  then show "shortcuts (unregisterShortcut rawKeys isSequence p) =
     filter (\<lambda>s. \<not> set (keys s) \<subseteq> set (transformKeys rawKeys)) (shortcuts p)"
    by (simp add: unregisterShortcut_eq setState_outside)
next
  assume "routingAbsent rawKeys isSequence p"
  then show "flush (unregisterShortcut rawKeys isSequence p) =
      p\<lparr> shortcuts := filter (\<lambda>s. \<not> set (keys s) \<subseteq> set (transformKeys rawKeys)) (shortcuts p),
         pending := [] \<rparr>"
    by (simp add: unregisterShortcut_absent flush_setState)
next
  assume a: "routingAbsent rawKeys isSequence p \<and> \<not> batching p \<and> pending p = []"
  then have "unregisterShortcut rawKeys isSequence p =
      p\<lparr> shortcuts := filter (\<lambda>s. \<not> set (keys s) \<subseteq> set (transformKeys rawKeys)) (shortcuts p),
         pending := pending p \<rparr>"
    by (simp add: unregisterShortcut_absent setState_outside)
  then show "unregisterShortcut rawKeys isSequence p =
      p\<lparr> shortcuts := shortcuts (unregisterShortcut rawKeys isSequence p) \<rparr>"
    by simp
next
  assume a: "routingAbsent rawKeys isSequence p \<and> \<not> batching p \<and> pending p = [] \<and>
    (\<forall>s\<in>set (shortcuts p). \<not> set (keys s) \<subseteq> set (transformKeys rawKeys))"
  then have "filter (\<lambda>s. \<not> set (keys s) \<subseteq> set (transformKeys rawKeys)) (shortcuts p) = shortcuts p"
    by (simp add: filter_id_conv)
  with a show "unregisterShortcut rawKeys isSequence p = p"
    by (simp add: unregisterShortcut_absent setState_same)
qed

theorem C5_witness:
  "routingAbsent [''y''] False withTwoChords \<and>
   \<not> batching withTwoChords \<and> pending withTwoChords = [] \<and>
   map keys (shortcuts withTwoChords) = [[''ctrl+s''], [''x'']] \<and>
   unregisterShortcut [''y''] False withTwoChords = withTwoChords \<and>
   map keys (shortcuts (unregisterShortcut [''Control+S'', ''q''] False withTwoChords)) = [[''x'']] \<and>
   map keys (shortcuts (flush (unregisterShortcut [''Control+S'', ''q''] False withTwoChords))) =
     [[''x'']]"
proof -
  have h: "routingAbsent [''y''] False withTwoChords \<and>
      \<not> batching withTwoChords \<and> pending withTwoChords = [] \<and>
      (\<forall>s\<in>set (shortcuts withTwoChords). \<not> set (keys s) \<subseteq> set (transformKeys [''y'']))"
    by code_simp
  have f: "map keys (filter (\<lambda>s. \<not> set (keys s) \<subseteq> set (transformKeys [''Control+S'', ''q'']))
             (shortcuts withTwoChords)) = [[''x'']]"
    by code_simp
  from h C5_unregister_subset_removal [of "[''y'']" False withTwoChords]
  have "unregisterShortcut [''y''] False withTwoChords = withTwoChords" by blast
  moreover from f h C5_unregister_subset_removal [of "[''Control+S'', ''q'']" False withTwoChords]
  have "map keys (shortcuts (unregisterShortcut [''Control+S'', ''q''] False withTwoChords)) = [[''x'']]"
    "map keys (shortcuts (flush (unregisterShortcut [''Control+S'', ''q''] False withTwoChords))) =
       [[''x'']]"
    by simp_all
  moreover have "map keys (shortcuts withTwoChords) = [[''ctrl+s''], [''x'']]"
    by code_simp
  ultimately show ?thesis using h by blast
qed

text \<open>
  The claim as stated fails: with the sequence \<open>a\<close>, \<open>b\<close> registered,
  \<open>unregisterShortcut ["a", "b"]\<close> (chord path) finds none of its combinations in the
  instantaneous, hold or duration tables, which are empty, and leaves every routing table
  as it was, the sequence entry included; yet the snapshot loses its only shortcut.
\<close>

theorem C5_counterexample:
  "transformKeys [''a'', ''b''] = [''a'', ''b''] \<and>
   listeners withSequenceAB = [] \<and> holdListeners withSequenceAB = [] \<and> holdDurations withSequenceAB = [] \<and>
   map keys (shortcuts withSequenceAB) = [[''a'', ''b'']] \<and>
   listeners (unregisterShortcut [''a'', ''b''] False withSequenceAB) = [] \<and>
   holdListeners (unregisterShortcut [''a'', ''b''] False withSequenceAB) = [] \<and>
   holdDurations (unregisterShortcut [''a'', ''b''] False withSequenceAB) = [] \<and>
   sequenceListeners (unregisterShortcut [''a'', ''b''] False withSequenceAB) =
     sequenceListeners withSequenceAB \<and>
   sequenceListeners withSequenceAB = [(''a,b'', 3)] \<and>
   shortcuts (unregisterShortcut [''a'', ''b''] False withSequenceAB) = [] \<and>
   unregisterShortcut [''a'', ''b''] False withSequenceAB \<noteq> withSequenceAB"
proof -
  have 1: "transformKeys [''a'', ''b''] = [''a'', ''b'']" by code_simp
  have 2: "listeners withSequenceAB = [] \<and> holdListeners withSequenceAB = [] \<and> holdDurations withSequenceAB = []"
    by code_simp
  have 3: "map keys (shortcuts withSequenceAB) = [[''a'', ''b'']]" by code_simp
  have 4: "listeners (unregisterShortcut [''a'', ''b''] False withSequenceAB) = [] \<and>
   holdListeners (unregisterShortcut [''a'', ''b''] False withSequenceAB) = [] \<and>
   holdDurations (unregisterShortcut [''a'', ''b''] False withSequenceAB) = []" by code_simp
  have 5: "sequenceListeners (unregisterShortcut [''a'', ''b''] False withSequenceAB) =
     sequenceListeners withSequenceAB" by code_simp
  have 6: "sequenceListeners withSequenceAB = [(''a,b'', 3)]" by code_simp
  have 7: "shortcuts (unregisterShortcut [''a'', ''b''] False withSequenceAB) = []" by code_simp
  from 3 7 have 8: "unregisterShortcut [''a'', ''b''] False withSequenceAB \<noteq> withSequenceAB" by auto
  from 1 2 3 4 5 6 7 8 show ?thesis by blast
qed

section \<open>Stored keys\<close>

text \<open>
  C8 (violated by the code).  \<open>registerShortcut\<close> stores the canonicalised keys, which
  \<open>transformKeys\<close> leaves as they are; \<open>registerSequenceShortcut\<close> stores the keys as
  given.  After \<open>registerSequenceShortcut(m, ["Cmd", "K"])\<close> the snapshot holds a shortcut
  with the raw keys \<open>Cmd\<close>, \<open>K\<close>, whose canonical form is \<open>meta\<close>, \<open>k\<close>, and
  \<open>unregisterShortcut(["Cmd", "K"], true)\<close>, which canonicalises its request, removes
  neither that shortcut nor its routing entry.
\<close>

theorem C8_sequence_keys_stored_raw:
  "transformKeys (keys (last (shortcuts (registerShortcut m rawKeys ttl descr holdDur now (initial tags)))))
     = keys (last (shortcuts (registerShortcut m rawKeys ttl descr holdDur now (initial tags)))) \<and>
   map keys (shortcuts withSequenceCmdK) = [[''Cmd'', ''K'']] \<and>
   transformKeys [''Cmd'', ''K''] = [''meta'', ''k''] \<and>
   sequenceListeners withSequenceCmdK = [(''cmd,k'', 3)] \<and>
   unregisterShortcut [''Cmd'', ''K''] True withSequenceCmdK = withSequenceCmdK"
proof -
  have "\<forall>k\<in>set (transformKeys rawKeys). k \<notin> fst ` set (targetTable holdDur (initial tags))"
    by (simp add: targetTable_def initial_def)
  moreover have "\<not> batching (initial tags)"
    by (simp add: initial_def)
  ultimately have "keys (last (shortcuts (registerShortcut m rawKeys ttl descr holdDur now (initial tags))))
      = transformKeys rawKeys"
    by (cases holdDur)
       (simp_all add: registerShortcut_instant registerShortcut_hold targetTable_def
          setState_outside)
  then have 1: "transformKeys (keys (last (shortcuts (registerShortcut m rawKeys ttl descr holdDur now (initial tags)))))
     = keys (last (shortcuts (registerShortcut m rawKeys ttl descr holdDur now (initial tags))))"
    by (simp add: transformKeys_idem)
  have 2: "map keys (shortcuts withSequenceCmdK) = [[''Cmd'', ''K'']]" by code_simp
  have 3: "transformKeys [''Cmd'', ''K''] = [''meta'', ''k'']" by code_simp
  have 4: "sequenceListeners withSequenceCmdK = [(''cmd,k'', 3)]" by code_simp
  have "routingAbsent [''Cmd'', ''K''] True withSequenceCmdK" by code_simp
  moreover have "list_all (\<lambda>s. \<not> set (keys s) \<subseteq> set (transformKeys [''Cmd'', ''K'']))
      (shortcuts withSequenceCmdK)" by code_simp
  moreover have "\<not> batching withSequenceCmdK \<and> pending withSequenceCmdK = []" by code_simp
  ultimately have 5: "unregisterShortcut [''Cmd'', ''K''] True withSequenceCmdK = withSequenceCmdK"
    by (simp add: unregisterShortcut_absent list_all_iff filter_id_conv setState_same)
  from 1 2 3 4 5 show ?thesis by blast
qed

section \<open>Identifiers\<close>

lemma digits36_length: "length digits36 = 36"
  by (simp add: digits36_def)

lemma digits36_distinct: "distinct digits36"
  by code_simp

lemma toString36_small: "n < 36 \<Longrightarrow> toString36 n = [digits36 ! n]"
  by (subst toString36.simps) simp

lemma toString36_large:
  "\<not> n < 36 \<Longrightarrow> toString36 n = toString36 (n div 36) @ [digits36 ! (n mod 36)]"
  by (subst toString36.simps) simp

lemma toString36_not_Nil: "toString36 n \<noteq> []"
  by (cases "n < 36") (simp_all add: toString36_small toString36_large)

lemma digits36_inj: "i < 36 \<Longrightarrow> j < 36 \<Longrightarrow> digits36 ! i = digits36 ! j \<Longrightarrow> i = j"
  using digits36_distinct digits36_length by (simp add: nth_eq_iff_index_eq)

lemma toString36_inj: "toString36 n = toString36 m \<Longrightarrow> n = m"
proof (induction n arbitrary: m rule: toString36.induct)
  case (1 n)
  show ?case
  proof (cases "n < 36")
    case n: True
    show ?thesis
    proof (cases "m < 36")
      case True
      with n "1.prems" show ?thesis
        by (simp add: toString36_small digits36_inj)
    next
      case False
      with n "1.prems" toString36_not_Nil [of "m div 36"] show ?thesis
        by (simp add: toString36_small toString36_large)
    qed
  next
    case n: False
    show ?thesis
    proof (cases "m < 36")
      case True
      with n "1.prems" toString36_not_Nil [of "n div 36"] show ?thesis
        by (simp add: toString36_small toString36_large)
    next
      case False
      with n "1.prems" have eq: "toString36 (n div 36) = toString36 (m div 36)"
        and d: "digits36 ! (n mod 36) = digits36 ! (m mod 36)"
        by (simp_all add: toString36_large)
      from "1.IH" [OF n eq] have "n div 36 = m div 36" .
      moreover from d have "n mod 36 = m mod 36"
        by (intro digits36_inj) simp_all
      ultimately show ?thesis
        by (metis div_mult_mod_eq)
    qed
  qed
qed

lemma perform_created:
  "shortcuts (perform r now p) = shortcuts p @ [s] \<or>
   pending (perform r now p) = pending p @ [shortcuts p @ [s]] \<Longrightarrow>
   id_str s = toString36 now"
proof (cases r)
  case (Chord m rawKeys ttl descr holdDur)
  assume a: "shortcuts (perform r now p) = shortcuts p @ [s] \<or>
    pending (perform r now p) = pending p @ [shortcuts p @ [s]]"
  show ?thesis
  proof (cases "\<exists>k\<in>set (transformKeys rawKeys). k \<in> fst ` set (targetTable holdDur p)")
    case True
    with a Chord show ?thesis by (simp add: registerShortcut_conflict)
  next
    case False
    with a Chord show ?thesis
      by (cases holdDur; cases "batching p")
         (auto simp: registerShortcut_instant registerShortcut_hold targetTable_def
            setState_outside setState_inside)
  qed
next
  case (Sequenced m rawKeys ttl descr)
  assume a: "shortcuts (perform r now p) = shortcuts p @ [s] \<or>
    pending (perform r now p) = pending p @ [shortcuts p @ [s]]"
  show ?thesis
  proof (cases "toLowerCase (join '','' rawKeys) \<in> fst ` set (sequenceListeners p)")
    case True
    with a Sequenced show ?thesis by (simp add: registerSequenceShortcut_conflict)
  next
    case False
    with a Sequenced show ?thesis
      by (cases "batching p")
         (auto simp: registerSequenceShortcut_fresh setState_outside setState_inside)
  qed
qed

text \<open>
  C9 (as amended).  The identifier of a shortcut is the base-36 numeral of the clock
  reading of the registration that created it, and nothing else: for any two
  registrations, of either kind and on any states, that each add a shortcut to the
  snapshot, or inside a batch queue the update that adds it, the two shortcuts have the
  same identifier exactly when the two clock readings are equal.
\<close>

theorem C9_ids_follow_clock:
  "(shortcuts (perform r1 now1 p) = shortcuts p @ [s1] \<or>
    pending (perform r1 now1 p) = pending p @ [shortcuts p @ [s1]]) \<and>
   (shortcuts (perform r2 now2 q) = shortcuts q @ [s2] \<or>
    pending (perform r2 now2 q) = pending q @ [shortcuts q @ [s2]]) \<longrightarrow>
   id_str s1 = toString36 now1 \<and> id_str s2 = toString36 now2 \<and>
   (id_str s1 = id_str s2 \<longleftrightarrow> now1 = now2)"
  using perform_created [of r1 now1 p s1] perform_created [of r2 now2 q s2] toString36_inj
  by auto

theorem C9_witness:
  "shortcuts (perform (Chord 1 [''a''] ''First'' [] None) 1000 (initial None)) =
     shortcuts (initial None) @ [firstShortcut] \<and>
   shortcuts (perform (Sequenced 2 [''g'', ''g''] ''Second'' []) 1001 firstAtThousand) =
     shortcuts firstAtThousand @ [secondShortcut] \<and>
   id_str firstShortcut \<noteq> id_str secondShortcut"
proof -
  have h: "shortcuts (perform (Chord 1 [''a''] ''First'' [] None) 1000 (initial None)) =
      shortcuts (initial None) @ [firstShortcut] \<and>
    shortcuts (perform (Sequenced 2 [''g'', ''g''] ''Second'' []) 1001 firstAtThousand) =
      shortcuts firstAtThousand @ [secondShortcut]"
    by code_simp
  with C9_ids_follow_clock [of "Chord 1 [''a''] ''First'' [] None" 1000 "initial None" firstShortcut
         "Sequenced 2 [''g'', ''g''] ''Second'' []" 1001 firstAtThousand secondShortcut]
  have "id_str firstShortcut = id_str secondShortcut \<longleftrightarrow> (1000::nat) = 1001" by blast
  with h show ?thesis by simp
qed

text \<open>
  The claim as stated fails: two successful registrations within one millisecond give
  their shortcuts the same identifier.
\<close>

theorem C9_counterexample:
  "map method_fn (shortcuts sameMillisecond) = [1, 2] \<and>
   map id_str (shortcuts sameMillisecond) = [''rs'', ''rs'']"
  by code_simp

section \<open>Key-down dispatch\<close>

lemma keyDown_ignored:
  "toLowerCase (tagName e) \<in> set (ignoreList p) \<or> toLowerCase (key e) \<in> set (keysDown p) \<Longrightarrow>
   keyDown e p = (p, [])"
  by (auto simp: keyDown_def)

lemma resetTimer_frame [simp]:
  "keysDown (resetTimer p) = keysDown p"
  "previousKeys (resetTimer p) = previousKeys p"
  "listeners (resetTimer p) = listeners p"
  "holdListeners (resetTimer p) = holdListeners p"
  "holdDurations (resetTimer p) = holdDurations p"
  "sequenceListeners (resetTimer p) = sequenceListeners p"
  "sequenceTimer (resetTimer p) = sequenceTimer p"
  "shortcuts (resetTimer p) = shortcuts p"
  "ignoreTagNames (resetTimer p) = ignoreTagNames p"
  "nextHandle (resetTimer p) = nextHandle p"
  "pending (resetTimer p) = pending p"
  "batching (resetTimer p) = batching p"
  "holdInterval (resetTimer p) = None"
  by (simp_all add: resetTimer_def clearInterval_def clearTimer_def split: option.splits)

lemma resetTimer_timers:
  "timers (resetTimer p) =
     (case holdInterval p of None \<Rightarrow> timers p | Some h \<Rightarrow> AList.delete h (timers p))"
  by (simp add: resetTimer_def clearInterval_def clearTimer_def split: option.splits)

lemma resetTimer_holdTimer:
  "holdTimer (resetTimer p) = (if holdInterval p = None then holdTimer p else 0)"
  by (simp add: resetTimer_def clearInterval_def clearTimer_def split: option.splits)

lemma keyDown_effects:
  "toLowerCase (tagName e) \<notin> set (ignoreList p) \<Longrightarrow>
   toLowerCase (key e) \<notin> set (keysDown p) \<Longrightarrow>
   snd (keyDown e p) =
     (case map_of (listeners p) (join ''+'' (pressedKeys e)) of
        Some m \<Rightarrow> [PreventDefault e, Call Instantaneous (join ''+'' (pressedKeys e)) m e]
      | None \<Rightarrow> []) @
     (case map_of (sequenceListeners p) (join '','' (previousKeys p @ pressedKeys e)) of
        Some m \<Rightarrow> [Call Sequence (join '','' (previousKeys p @ pressedKeys e)) m e]
      | None \<Rightarrow> [])"
  by (simp add: keyDown_def Let_def createTimer_def setInterval_def setTimeout_def
        clearTimeout_def clearTimer_def split: option.splits prod.splits)

lemma keyDown_state:
  "toLowerCase (tagName e) \<notin> set (ignoreList p) \<Longrightarrow>
   toLowerCase (key e) \<notin> set (keysDown p) \<Longrightarrow>
   fst (keyDown e p) =
     p\<lparr> keysDown := keysDown p @ pressedKeys e,
        holdInterval := Some (nextHandle p),
        holdTimer := (if holdInterval p = None then holdTimer p else 0),
        previousKeys := previousKeys p @ pressedKeys e,
        sequenceTimer := Some (Suc (nextHandle p)),
        timers :=
          (case sequenceTimer p of None \<Rightarrow> (\<lambda>ts. ts) | Some h \<Rightarrow> AList.delete h)
            ((case holdInterval p of None \<Rightarrow> timers p | Some h \<Rightarrow> AList.delete h (timers p)) @
             [(nextHandle p,
               \<lparr> repeating = True, delay = 100, remaining = 100,
                 callback = HoldTick (pressedKeys e) (join ''+'' (pressedKeys e)) e \<rparr>)]) @
          [(Suc (nextHandle p),
            \<lparr> repeating = False, delay = 2000, remaining = 2000, callback = SequenceReset \<rparr>)],
        nextHandle := Suc (Suc (nextHandle p)) \<rparr>"
  by (simp add: keyDown_def Let_def createTimer_def setInterval_def setTimeout_def
        clearTimeout_def clearTimer_def resetTimer_timers resetTimer_holdTimer
        split: option.splits prod.splits)

lemma instantaneousCalls_sequence [simp]:
  "instantaneousCalls (case x of Some m \<Rightarrow> [Call Sequence k m e] | None \<Rightarrow> []) = []"
  by (cases x) simp_all

text \<open>
  C1.  For every key-down event whose target tag name is not in the ignore list and
  whose key is not recorded as down, if the combination string built from the event's
  ctrl/alt/meta flags and the lower-cased key is a key of the instantaneous table, then
  the default action is prevented and the handler stored there is called with the event,
  once: the effects of the key-down are \<open>preventDefault\<close>, that call, and then at most
  the call of the sequence handler that the buffer now matches; the instantaneous table is
  dispatched exactly once.  On a key-down whose key is already recorded as down, or whose
  target is ignored, nothing is called and the provider is unchanged.
\<close>

theorem C1_keyDown_instantaneous:
  "(toLowerCase (tagName e) \<notin> set (ignoreList p) \<and>
    toLowerCase (key e) \<notin> set (keysDown p) \<and>
    map_of (listeners p) (join ''+'' (pressedKeys e)) = Some m \<longrightarrow>
      snd (keyDown e p) =
        PreventDefault e # Call Instantaneous (join ''+'' (pressedKeys e)) m e #
        (case map_of (sequenceListeners p) (join '','' (previousKeys p @ pressedKeys e)) of
           Some m' \<Rightarrow> [Call Sequence (join '','' (previousKeys p @ pressedKeys e)) m' e]
         | None \<Rightarrow> []) \<and>
      instantaneousCalls (snd (keyDown e p)) = [(join ''+'' (pressedKeys e), m, e)]) \<and>
   (toLowerCase (tagName e) \<in> set (ignoreList p) \<or>
    toLowerCase (key e) \<in> set (keysDown p) \<longrightarrow>
      keyDown e p = (p, []))"
  by (simp add: keyDown_effects keyDown_ignored)

theorem C1_witness:
  "toLowerCase (tagName ctrl_K_event) \<notin> set (ignoreList withOpen) \<and>
   toLowerCase (key ctrl_K_event) \<notin> set (keysDown withOpen) \<and>
   map_of (listeners withOpen) (join ''+'' (pressedKeys ctrl_K_event)) = Some 1 \<and>
   snd (keyDown ctrl_K_event withOpen) =
     [PreventDefault ctrl_K_event, Call Instantaneous ''ctrl+k'' 1 ctrl_K_event] \<and>
   toLowerCase (key ctrl_K_event) \<in> set (keysDown (fst (keyDown ctrl_K_event withOpen))) \<and>
   keyDown ctrl_K_event (fst (keyDown ctrl_K_event withOpen)) = (fst (keyDown ctrl_K_event withOpen), [])"
proof -
  have h: "toLowerCase (tagName ctrl_K_event) \<notin> set (ignoreList withOpen) \<and>
      toLowerCase (key ctrl_K_event) \<notin> set (keysDown withOpen) \<and>
      map_of (listeners withOpen) (join ''+'' (pressedKeys ctrl_K_event)) = Some 1"
    by code_simp
  have k: "join ''+'' (pressedKeys ctrl_K_event) = ''ctrl+k''" by code_simp
  have s: "map_of (sequenceListeners withOpen)
             (join '','' (previousKeys withOpen @ pressedKeys ctrl_K_event)) = None"
    by code_simp
  have r: "toLowerCase (key ctrl_K_event) \<in> set (keysDown (fst (keyDown ctrl_K_event withOpen)))"
    by code_simp
  from h C1_keyDown_instantaneous [of ctrl_K_event withOpen 1]
  have "snd (keyDown ctrl_K_event withOpen) =
      PreventDefault ctrl_K_event # Call Instantaneous (join ''+'' (pressedKeys ctrl_K_event)) 1 ctrl_K_event #
      (case map_of (sequenceListeners withOpen)
              (join '','' (previousKeys withOpen @ pressedKeys ctrl_K_event)) of
         Some m' \<Rightarrow> [Call Sequence (join '','' (previousKeys withOpen @ pressedKeys ctrl_K_event)) m' ctrl_K_event]
       | None \<Rightarrow> [])"
    by blast
  then have 1: "snd (keyDown ctrl_K_event withOpen) =
      [PreventDefault ctrl_K_event, Call Instantaneous ''ctrl+k'' 1 ctrl_K_event]"
    by (simp add: k s)
  from r C1_keyDown_instantaneous [of ctrl_K_event "fst (keyDown ctrl_K_event withOpen)"]
  have 2: "keyDown ctrl_K_event (fst (keyDown ctrl_K_event withOpen)) = (fst (keyDown ctrl_K_event withOpen), [])"
    by blast
  from h 1 r 2 show ?thesis by blast
qed

section \<open>Facts about the timers\<close>

lemma timers_ok_iff:
  "timers_ok p \<longleftrightarrow>
     distinct (map fst (timers p)) \<and>
     (\<forall>(h, t)\<in>set (timers p). h < nextHandle p \<and>
        (callback t = SequenceReset \<longrightarrow> sequenceTimer p = Some h \<and> \<not> repeating t))"
  by (simp add: timers_ok_def list_all_iff)

lemma set_delete: "set (AList.delete k al) = {x \<in> set al. fst x \<noteq> k}"
  by (induction al) auto

lemma set_update_subset: "set (AList.update k v al) \<subseteq> insert (k, v) (set al)"
  by (induction al) auto

lemma set_update_other:
  "(k', v') \<in> set al \<Longrightarrow> k' \<noteq> k \<Longrightarrow> (k', v') \<in> set (AList.update k v al)"
  by (induction al) auto

lemma map_of_distinct_mem:
  "distinct (map fst al) \<Longrightarrow> (k, v) \<in> set al \<Longrightarrow> map_of al k = Some v"
  by simp

lemma resetTimer_idem: "resetTimer (resetTimer p) = resetTimer p"
  by (simp add: resetTimer_def split: option.splits)

lemma holdCheck_cases:
  "fst (holdCheck ks kp e p) = p \<or> fst (holdCheck ks kp e p) = resetTimer p"
proof (induction ks arbitrary: p)
  case Nil
  then show ?case by simp
next
  case (Cons k ks)
  from Cons [of p] Cons [of "resetTimer p"] show ?case
    by (auto simp: resetTimer_idem split: option.splits prod.splits)
qed

lemma run_callback_HoldTick_cases:
  "\<exists>x. fst (run_callback (HoldTick ks kp e) p) = p\<lparr> holdTimer := x \<rparr> \<or>
       fst (run_callback (HoldTick ks kp e) p) = (resetTimer p)\<lparr> holdTimer := x \<rparr>"
proof -
  obtain q fx err where hc: "holdCheck ks kp e p = (q, fx, err)"
    by (cases "holdCheck ks kp e p") auto
  with holdCheck_cases [of ks kp e p] have q: "q = p \<or> q = resetTimer p" by simp
  show ?thesis
  proof (cases err)
    case None
    with hc q show ?thesis by auto
  next
    case (Some a)
    with hc have "fst (run_callback (HoldTick ks kp e) p) = q\<lparr> holdTimer := holdTimer q \<rparr>"
      by simp
    with q show ?thesis by blast
  qed
qed

lemma fire_absent: "map_of (timers p) h = None \<Longrightarrow> fire h p = (p, [])"
  by (simp add: fire_def)

lemma fire_SequenceReset:
  "map_of (timers p) h = Some t \<Longrightarrow> callback t = SequenceReset \<Longrightarrow> \<not> repeating t \<Longrightarrow>
   fire h p = (p\<lparr> timers := AList.delete h (timers p), previousKeys := [], sequenceTimer := None \<rparr>, [])"
  by (simp add: fire_def clearTimer_def)

lemma fire_HoldTick_cases:
  assumes "map_of (timers p) h = Some t" and "callback t = HoldTick ks kp e"
  shows "\<exists>T x. (T = AList.update h (t\<lparr> remaining := delay t \<rparr>) (timers p) \<or>
                 T = AList.delete h (timers p)) \<and>
           (fst (fire h p) = p\<lparr> timers := T, holdTimer := x \<rparr> \<or>
            fst (fire h p) = (resetTimer (p\<lparr> timers := T \<rparr>))\<lparr> holdTimer := x \<rparr>)"
proof (cases "repeating t")
  case True
  let ?T = "AList.update h (t\<lparr> remaining := delay t \<rparr>) (timers p)"
  from assms True have "fire h p = run_callback (HoldTick ks kp e) (p\<lparr> timers := ?T \<rparr>)"
    by (simp add: fire_def)
  with run_callback_HoldTick_cases [of ks kp e "p\<lparr> timers := ?T \<rparr>"] show ?thesis
    by (metis (no_types, lifting))
next
  case False
  let ?T = "AList.delete h (timers p)"
  from assms False have "fire h p = run_callback (HoldTick ks kp e) (p\<lparr> timers := ?T \<rparr>)"
    by (simp add: fire_def clearTimer_def)
  with run_callback_HoldTick_cases [of ks kp e "p\<lparr> timers := ?T \<rparr>"] show ?thesis
    by (metis (no_types, lifting))
qed

lemma sameButHold_refl [simp]: "sameButHold p p"
  by (simp add: sameButHold_def)

lemma sameButHold_fields:
  assumes "sameButHold p q"
  shows "keysDown q = keysDown p" "previousKeys q = previousKeys p"
    "listeners q = listeners p" "holdListeners q = holdListeners p"
    "holdDurations q = holdDurations p" "sequenceListeners q = sequenceListeners p"
    "sequenceTimer q = sequenceTimer p" "shortcuts q = shortcuts p"
    "ignoreTagNames q = ignoreTagNames p" "nextHandle q = nextHandle p"
proof -
  from assms have eq: "p = q\<lparr> timers := timers p, holdInterval := holdInterval p,
      holdTimer := holdTimer p \<rparr>"
    by (simp add: sameButHold_def)
  show "keysDown q = keysDown p" by (subst eq) simp
  show "previousKeys q = previousKeys p" by (subst eq) simp
  show "listeners q = listeners p" by (subst eq) simp
  show "holdListeners q = holdListeners p" by (subst eq) simp
  show "holdDurations q = holdDurations p" by (subst eq) simp
  show "sequenceListeners q = sequenceListeners p" by (subst eq) simp
  show "sequenceTimer q = sequenceTimer p" by (subst eq) simp
  show "shortcuts q = shortcuts p" by (subst eq) simp
  show "ignoreTagNames q = ignoreTagNames p" by (subst eq) simp
  show "nextHandle q = nextHandle p" by (subst eq) simp
qed

lemma sameButHold_trans: "sameButHold p q \<Longrightarrow> sameButHold q r \<Longrightarrow> sameButHold p r"
  unfolding sameButHold_def
  by (cases p, cases q, cases r) simp

lemma sameButHold_advance [simp]: "sameButHold p (advance d p)"
  by (simp add: sameButHold_def advance_def)

lemma sameButHold_resetTimer: "sameButHold p (resetTimer (p\<lparr> timers := T \<rparr>)\<lparr> holdTimer := x \<rparr>)"
  by (simp add: sameButHold_def resetTimer_def clearInterval_def clearTimer_def split: option.splits)

lemma sameButHold_update: "sameButHold p (p\<lparr> timers := T, holdTimer := x \<rparr>)"
  by (simp add: sameButHold_def)

lemma fire_HoldTick_props:
  assumes ok: "timers_ok p" and t: "map_of (timers p) h = Some t"
    and cb: "callback t = HoldTick ks kp e"
  shows "sameButHold p (fst (fire h p))"
    and "timers_ok (fst (fire h p))"
    and "holdInterval (fst (fire h p)) = holdInterval p \<or> holdInterval (fst (fire h p)) = None"
    and "\<forall>(h', t')\<in>set (timers (fst (fire h p))).
           (h', t') \<in> set (timers p) \<or> (h' = h \<and> callback t' = callback t)"
    and "\<forall>(h', t')\<in>set (timers p). h' \<noteq> h \<and> holdInterval p \<noteq> Some h' \<longrightarrow>
           (h', t') \<in> set (timers (fst (fire h p)))"
proof -
  let ?q = "fst (fire h p)"
  let ?U = "AList.update h (t\<lparr> remaining := delay t \<rparr>) (timers p)"
  from fire_HoldTick_cases [OF t cb] obtain T x where
    T: "T = ?U \<or> T = AList.delete h (timers p)" and
    q: "?q = p\<lparr> timers := T, holdTimer := x \<rparr> \<or> ?q = (resetTimer (p\<lparr> timers := T \<rparr>))\<lparr> holdTimer := x \<rparr>"
    by blast
  from q show "sameButHold p ?q"
    by (auto simp: sameButHold_resetTimer sameButHold_update)
  from q show "holdInterval ?q = holdInterval p \<or> holdInterval ?q = None"
    by auto
  from t have mem: "(h, t) \<in> set (timers p)" by (rule map_of_SomeD)
  have Tsub: "\<forall>(h', t')\<in>set T. (h', t') \<in> set (timers p) \<or> (h' = h \<and> callback t' = callback t)"
    using T set_update_subset [of h "t\<lparr> remaining := delay t \<rparr>" "timers p"]
    by (auto simp: set_delete)
  have Tdist: "distinct (map fst T)"
    using T ok by (auto simp: timers_ok_iff distinct_update distinct_delete)
  have Tkeep: "\<forall>(h', t')\<in>set (timers p). h' \<noteq> h \<longrightarrow> (h', t') \<in> set T"
    using T by (auto simp: set_delete set_update_other)
  have tq: "timers ?q = T \<or> (\<exists>hi. holdInterval p = Some hi \<and> timers ?q = AList.delete hi T)"
    using q by (auto simp: resetTimer_timers split: option.splits)
  then have qsub: "set (timers ?q) \<subseteq> set T"
    by (auto simp: set_delete)
  with Tsub show "\<forall>(h', t')\<in>set (timers ?q).
           (h', t') \<in> set (timers p) \<or> (h' = h \<and> callback t' = callback t)"
    by blast
  from tq Tkeep show "\<forall>(h', t')\<in>set (timers p). h' \<noteq> h \<and> holdInterval p \<noteq> Some h' \<longrightarrow>
           (h', t') \<in> set (timers ?q)"
    by (auto simp: set_delete)
  have qdist: "distinct (map fst (timers ?q))"
    using tq Tdist by (auto simp: distinct_delete)
  have nh: "nextHandle ?q = nextHandle p" and st: "sequenceTimer ?q = sequenceTimer p"
    using q by auto
  from mem ok have hlt: "h < nextHandle p" by (auto simp: timers_ok_iff)
  show "timers_ok ?q"
    unfolding timers_ok_iff
  proof (intro conjI ballI)
    show "distinct (map fst (timers ?q))" by (rule qdist)
  next
    fix y assume y: "y \<in> set (timers ?q)"
    obtain h' t' where [simp]: "y = (h', t')" by (cases y)
    from y qsub Tsub have "(h', t') \<in> set (timers p) \<or> (h' = h \<and> callback t' = callback t)"
      by auto
    then show "case y of (h, t) \<Rightarrow> h < nextHandle ?q \<and>
        (callback t = SequenceReset \<longrightarrow> sequenceTimer ?q = Some h \<and> \<not> repeating t)"
      using ok hlt cb by (auto simp: timers_ok_iff nh st)
  qed
qed

lemma fire_SequenceReset_ok:
  assumes ok: "timers_ok p" and t: "map_of (timers p) h = Some t"
    and cb: "callback t = SequenceReset"
  shows "fire h p =
      (p\<lparr> timers := AList.delete h (timers p), previousKeys := [], sequenceTimer := None \<rparr>, [])"
    and "timers_ok (fst (fire h p))"
proof -
  from t have mem: "(h, t) \<in> set (timers p)" by (rule map_of_SomeD)
  with ok cb have nr: "\<not> repeating t" and sq: "sequenceTimer p = Some h"
    by (auto simp: timers_ok_iff)
  from t cb nr show f: "fire h p =
      (p\<lparr> timers := AList.delete h (timers p), previousKeys := [], sequenceTimer := None \<rparr>, [])"
    by (rule fire_SequenceReset)
  show "timers_ok (fst (fire h p))"
    using ok sq unfolding f timers_ok_iff
    by (auto simp: distinct_delete set_delete)
qed

lemma fire_ok: "timers_ok p \<Longrightarrow> timers_ok (fst (fire h p))"
proof (cases "map_of (timers p) h")
  case None
  assume "timers_ok p"
  with None show ?thesis by (simp add: fire_absent)
next
  case (Some t)
  assume ok: "timers_ok p"
  show ?thesis
  proof (cases "callback t")
    case (HoldTick ks kp e)
    from fire_HoldTick_props(2) [OF ok Some HoldTick] show ?thesis .
  next
    case SequenceReset
    from fire_SequenceReset_ok(2) [OF ok Some SequenceReset] show ?thesis .
  qed
qed

lemma fire_all_Cons_fst: "fst (fire_all (h # hs) p) = fst (fire_all hs (fst (fire h p)))"
  by (simp split: prod.splits)

lemma fire_all_Cons_snd:
  "snd (fire_all (h # hs) p) = snd (fire h p) @ snd (fire_all hs (fst (fire h p)))"
  by (simp split: prod.splits)

lemma fire_all_ok: "timers_ok p \<Longrightarrow> timers_ok (fst (fire_all hs p))"
proof (induction hs arbitrary: p)
  case Nil
  then show ?case by simp
next
  case (Cons h hs)
  from Cons.prems have "timers_ok (fst (fire h p))" by (rule fire_ok)
  from Cons.IH [OF this] show ?case
    by (simp only: fire_all_Cons_fst)
qed

lemma advance_ok: "timers_ok p \<Longrightarrow> timers_ok (advance d p)"
  by (auto simp: timers_ok_iff advance_def comp_def case_prod_beta)

lemma elapse_stop:
  "timers p = [] \<or> ms < nextDue p \<Longrightarrow> elapse ms p = (advance ms p, [])"
  by (subst elapse.simps) simp

lemma elapse_step:
  "\<not> (timers p = [] \<or> ms < nextDue p) \<Longrightarrow>
   elapse ms p =
     (case fire_all (dueHandles (advance (nextDue p) p)) (advance (nextDue p) p) of
        (p1, fx1) \<Rightarrow> (case elapse (ms - nextDue p) p1 of (p2, fx2) \<Rightarrow> (p2, fx1 @ fx2)))"
  by (subst elapse.simps) simp

lemma elapse_step_fst:
  "\<not> (timers p = [] \<or> ms < nextDue p) \<Longrightarrow>
   fst (elapse ms p) =
     fst (elapse (ms - nextDue p)
            (fst (fire_all (dueHandles (advance (nextDue p) p)) (advance (nextDue p) p))))"
  by (simp add: elapse_step split: prod.splits)

lemma elapse_step_snd:
  "\<not> (timers p = [] \<or> ms < nextDue p) \<Longrightarrow>
   snd (elapse ms p) =
     snd (fire_all (dueHandles (advance (nextDue p) p)) (advance (nextDue p) p)) @
     snd (elapse (ms - nextDue p)
            (fst (fire_all (dueHandles (advance (nextDue p) p)) (advance (nextDue p) p))))"
  by (simp add: elapse_step split: prod.splits)

lemma elapse_cases [case_names stop step]:
  assumes stop: "\<And>ms p. timers p = [] \<or> ms < nextDue p \<Longrightarrow> P ms p"
    and step: "\<And>ms p. \<not> (timers p = [] \<or> ms < nextDue p) \<Longrightarrow>
      P (ms - nextDue p)
        (fst (fire_all (dueHandles (advance (nextDue p) p)) (advance (nextDue p) p))) \<Longrightarrow>
      P ms p"
  shows "P ms p"
proof (induction ms p rule: elapse.induct)
  case (1 ms p)
  show ?case
  proof (cases "timers p = [] \<or> ms < nextDue p")
    case True
    then show ?thesis by (rule stop)
  next
    case False
    obtain p1 fx1 where
      f: "fire_all (dueHandles (advance (nextDue p) p)) (advance (nextDue p) p) = (p1, fx1)"
      by (cases "fire_all (dueHandles (advance (nextDue p) p)) (advance (nextDue p) p)") auto
    from "1.IH" [OF False f [symmetric]] have "P (ms - nextDue p) p1" .
    with f have "P (ms - nextDue p)
        (fst (fire_all (dueHandles (advance (nextDue p) p)) (advance (nextDue p) p)))"
      by simp
    with False show ?thesis by (rule step)
  qed
qed

lemma elapse_ok: "timers_ok p \<Longrightarrow> timers_ok (fst (elapse ms p))"
proof (induction ms p rule: elapse_cases)
  case (stop ms p)
  then show ?case by (simp add: elapse_stop advance_ok)
next
  case (step ms p)
  from step.prems have "timers_ok (fst (fire_all (dueHandles (advance (nextDue p) p)) (advance (nextDue p) p)))"
    by (intro fire_all_ok advance_ok)
  from step.IH [OF this] show ?case
    by (simp only: elapse_step_fst [OF step.hyps])
qed

lemma timers_ok_cong:
  "timers q = timers p \<Longrightarrow> nextHandle q = nextHandle p \<Longrightarrow> sequenceTimer q = sequenceTimer p \<Longrightarrow>
   timers_ok q = timers_ok p"
  by (simp add: timers_ok_def)

lemma registerShortcut_timers:
  "timers (registerShortcut m rawKeys ttl descr holdDur now p) = timers p \<and>
   nextHandle (registerShortcut m rawKeys ttl descr holdDur now p) = nextHandle p \<and>
   sequenceTimer (registerShortcut m rawKeys ttl descr holdDur now p) = sequenceTimer p"
proof (cases "\<exists>k\<in>set (transformKeys rawKeys). k \<in> fst ` set (targetTable holdDur p)")
  case True
  then show ?thesis by (simp add: registerShortcut_conflict)
next
  case False
  then show ?thesis
    by (cases holdDur)
       (simp_all add: registerShortcut_instant registerShortcut_hold targetTable_def)
qed

lemma registerSequenceShortcut_timers:
  "timers (registerSequenceShortcut m rawKeys ttl descr now p) = timers p \<and>
   nextHandle (registerSequenceShortcut m rawKeys ttl descr now p) = nextHandle p \<and>
   sequenceTimer (registerSequenceShortcut m rawKeys ttl descr now p) = sequenceTimer p"
  by (cases "toLowerCase (join '','' rawKeys) \<in> fst ` set (sequenceListeners p)")
     (simp_all add: registerSequenceShortcut_conflict registerSequenceShortcut_fresh)

lemma perform_ok: "timers_ok p \<Longrightarrow> timers_ok (perform r now p)"
  by (cases r)
     (simp_all add: timers_ok_cong [OF conjunct1 conjunct1 [OF conjunct2] conjunct2 [OF conjunct2],
        OF registerShortcut_timers registerShortcut_timers registerShortcut_timers]
       timers_ok_cong [OF conjunct1 conjunct1 [OF conjunct2] conjunct2 [OF conjunct2],
        OF registerSequenceShortcut_timers registerSequenceShortcut_timers
           registerSequenceShortcut_timers])

lemma unregisterShortcut_ok: "timers_ok p \<Longrightarrow> timers_ok (unregisterShortcut rawKeys isSequence p)"
  by (simp add: unregisterShortcut_eq timers_ok_def)

lemma batch_ok: "timers_ok p \<Longrightarrow> timers_ok (beginBatch p) \<and> timers_ok (endBatch p)"
  by (simp add: beginBatch_def endBatch_def timers_ok_def)

lemma resetTimer_ok: "timers_ok p \<Longrightarrow> timers_ok (resetTimer p)"
  by (auto simp: timers_ok_iff resetTimer_timers distinct_delete set_delete split: option.splits)

lemma keyUp_ok: "timers_ok p \<Longrightarrow> timers_ok (keyUp e p)"
proof -
  assume ok: "timers_ok p"
  have "timers_ok (p\<lparr> keysDown := filter (\<lambda>k. k \<notin> set (pressedKeys e)) (keysDown p) \<rparr>)"
    using ok by (simp add: timers_ok_def)
  then show ?thesis
    unfolding keyUp_def Let_def by (rule resetTimer_ok)
qed

lemma keyDown_resets:
  assumes ok: "timers_ok p"
    and h: "toLowerCase (tagName e) \<notin> set (ignoreList p)" "toLowerCase (key e) \<notin> set (keysDown p)"
  shows "timers_ok (fst (keyDown e p))"
    and "filter (\<lambda>(h, t). callback t = SequenceReset) (timers (fst (keyDown e p))) =
           [(Suc (nextHandle p),
             \<lparr> repeating = False, delay = 2000, remaining = 2000, callback = SequenceReset \<rparr>)]"
proof -
  let ?I = "(nextHandle p,
      \<lparr> repeating = True, delay = 100, remaining = 100,
        callback = HoldTick (pressedKeys e) (join ''+'' (pressedKeys e)) e \<rparr>)"
  let ?S = "(Suc (nextHandle p),
      \<lparr> repeating = False, delay = 2000, remaining = 2000, callback = SequenceReset \<rparr>)"
  let ?A = "case holdInterval p of None \<Rightarrow> timers p | Some h \<Rightarrow> AList.delete h (timers p)"
  let ?B = "(case sequenceTimer p of None \<Rightarrow> (\<lambda>ts. ts) | Some h \<Rightarrow> AList.delete h) (?A @ [?I])"
  have t: "timers (fst (keyDown e p)) = ?B @ [?S]"
    and n: "nextHandle (fst (keyDown e p)) = Suc (Suc (nextHandle p))"
    and s: "sequenceTimer (fst (keyDown e p)) = Some (Suc (nextHandle p))"
    by (simp_all add: keyDown_state [OF h])
  have A: "set ?A \<subseteq> set (timers p)" "distinct (map fst ?A)"
    using ok by (auto simp: timers_ok_iff set_delete distinct_delete split: option.splits)
  have lt: "\<forall>(h, t)\<in>set (timers p). h < nextHandle p"
    using ok by (auto simp: timers_ok_iff)
  with A have AI: "distinct (map fst (?A @ [?I]))" by auto
  then have Bd: "distinct (map fst ?B)"
    by (cases "sequenceTimer p") (simp_all add: distinct_delete del: distinct_append)
  have Bsub: "set ?B \<subseteq> insert ?I (set (timers p))"
    using A(1) by (cases "sequenceTimer p") (auto simp: set_delete)
  have noreset: "\<forall>(h, t)\<in>set ?B. callback t \<noteq> SequenceReset"
  proof (cases "sequenceTimer p")
    case None
    with ok A(1) show ?thesis by (auto simp: timers_ok_iff)
  next
    case (Some hs)
    with ok A(1) show ?thesis by (auto simp: timers_ok_iff set_delete)
  qed
  from Bsub lt have Blt: "\<forall>(h, t)\<in>set ?B. h < Suc (nextHandle p)" by fastforce
  show "timers_ok (fst (keyDown e p))"
    unfolding timers_ok_iff t n s using Bd Blt noreset by fastforce
  from noreset have "filter (\<lambda>(h, t). callback t = SequenceReset) ?B = []"
    by (auto simp: filter_empty_conv)
  then show "filter (\<lambda>(h, t). callback t = SequenceReset) (timers (fst (keyDown e p))) = [?S]"
    unfolding t by simp
qed

lemma keyDown_ok: "timers_ok p \<Longrightarrow> timers_ok (fst (keyDown e p))"
proof (cases "toLowerCase (tagName e) \<notin> set (ignoreList p) \<and> toLowerCase (key e) \<notin> set (keysDown p)")
  case True
  assume "timers_ok p"
  with True show ?thesis by (simp add: keyDown_resets(1))
next
  case False
  assume "timers_ok p"
  with False show ?thesis by (simp add: keyDown_ignored)
qed

lemma reachable_timers_ok: "reachable p \<Longrightarrow> timers_ok p"
proof (induction rule: reachable.induct)
  case (fresh tags)
  show ?case by (simp add: timers_ok_def initial_def)
next
  case (registered p r now)
  then show ?case by (simp add: perform_ok)
next
  case (unregistered p rawKeys isSequence)
  then show ?case by (simp add: unregisterShortcut_ok)
next
  case (pressed p e)
  then show ?case by (simp add: keyDown_ok)
next
  case (released p e)
  then show ?case by (simp add: keyUp_ok)
next
  case (waited p ms)
  then show ?case by (simp add: elapse_ok)
next
  case (began p)
  then show ?case by (simp add: batch_ok)
next
  case (ended p)
  then show ?case by (simp add: batch_ok)
qed

lemma sameButHold_Timed: "sameButHold p q \<Longrightarrow> sameButTimed p q"
  unfolding sameButHold_def sameButTimed_def
  by (cases p, cases q) simp

lemma sameButTimed_refl [simp]: "sameButTimed p p"
  by (simp add: sameButTimed_def)

lemma sameButTimed_trans: "sameButTimed p q \<Longrightarrow> sameButTimed q r \<Longrightarrow> sameButTimed p r"
  unfolding sameButTimed_def
  by (cases p, cases q, cases r) simp

lemma sameButTimed_fields:
  assumes "sameButTimed p q"
  shows "keysDown q = keysDown p" "listeners q = listeners p" "holdListeners q = holdListeners p"
    "holdDurations q = holdDurations p" "sequenceListeners q = sequenceListeners p"
    "shortcuts q = shortcuts p" "ignoreTagNames q = ignoreTagNames p" "nextHandle q = nextHandle p"
    "pending q = pending p" "batching q = batching p"
proof -
  from assms have eq: "p = q\<lparr> timers := timers p, holdInterval := holdInterval p,
      holdTimer := holdTimer p, previousKeys := previousKeys p, sequenceTimer := sequenceTimer p \<rparr>"
    by (simp add: sameButTimed_def)
  show "keysDown q = keysDown p" by (subst eq) simp
  show "listeners q = listeners p" by (subst eq) simp
  show "holdListeners q = holdListeners p" by (subst eq) simp
  show "holdDurations q = holdDurations p" by (subst eq) simp
  show "sequenceListeners q = sequenceListeners p" by (subst eq) simp
  show "shortcuts q = shortcuts p" by (subst eq) simp
  show "ignoreTagNames q = ignoreTagNames p" by (subst eq) simp
  show "nextHandle q = nextHandle p" by (subst eq) simp
  show "pending q = pending p" by (subst eq) simp
  show "batching q = batching p" by (subst eq) simp
qed

text \<open>
  A timer callback writes no field but the five of the two trackers, and can only empty
  the buffer.
\<close>

lemma fire_frame:
  assumes ok: "timers_ok p"
  shows "sameButTimed p (fst (fire h p))"
    and "previousKeys (fst (fire h p)) = previousKeys p \<or> previousKeys (fst (fire h p)) = []"
proof -
  have "sameButTimed p (fst (fire h p)) \<and>
    (previousKeys (fst (fire h p)) = previousKeys p \<or> previousKeys (fst (fire h p)) = [])"
  proof (cases "map_of (timers p) h")
    case None
    then show ?thesis by (simp add: fire_absent)
  next
    case (Some t)
    show ?thesis
    proof (cases "callback t")
      case (HoldTick ks kp e)
      from fire_HoldTick_props(1) [OF ok Some HoldTick] show ?thesis
        by (simp add: sameButHold_Timed sameButHold_fields)
    next
      case SequenceReset
      from fire_SequenceReset_ok(1) [OF ok Some SequenceReset] show ?thesis
        by (simp add: sameButTimed_def)
    qed
  qed
  then show "sameButTimed p (fst (fire h p))"
    and "previousKeys (fst (fire h p)) = previousKeys p \<or> previousKeys (fst (fire h p)) = []"
    by simp_all
qed

lemma fire_all_frame:
  "timers_ok p \<Longrightarrow>
   sameButTimed p (fst (fire_all hs p)) \<and>
   (previousKeys (fst (fire_all hs p)) = previousKeys p \<or> previousKeys (fst (fire_all hs p)) = [])"
proof (induction hs arbitrary: p)
  case Nil
  then show ?case by simp
next
  case (Cons h hs)
  let ?q = "fst (fire h p)"
  from Cons.prems have ok: "timers_ok ?q" by (rule fire_ok)
  let ?r = "fst (fire_all hs ?q)"
  from Cons.IH [OF ok] have ih: "sameButTimed ?q ?r"
    "previousKeys ?r = previousKeys ?q \<or> previousKeys ?r = []"
    by simp_all
  from fire_frame(1) [OF Cons.prems, of h] ih(1) have "sameButTimed p ?r"
    by (rule sameButTimed_trans)
  moreover from fire_frame(2) [OF Cons.prems, of h] ih(2)
  have "previousKeys ?r = previousKeys p \<or> previousKeys ?r = []"
    by auto
  ultimately show ?case
    unfolding fire_all_Cons_fst by simp
qed

lemma sameButTimed_advance [simp]: "sameButTimed p (advance d p)"
  by (simp add: sameButTimed_def advance_def)

lemma previousKeys_advance [simp]: "previousKeys (advance d p) = previousKeys p"
  by (simp add: advance_def)

lemma elapse_frame:
  "timers_ok p \<Longrightarrow>
   sameButTimed p (fst (elapse ms p)) \<and>
   (previousKeys (fst (elapse ms p)) = previousKeys p \<or> previousKeys (fst (elapse ms p)) = [])"
proof (induction ms p rule: elapse_cases)
  case (stop ms p)
  then show ?case by (simp add: elapse_stop)
next
  case (step ms p)
  let ?a = "advance (nextDue p) p"
  let ?q = "fst (fire_all (dueHandles ?a) ?a)"
  from step.prems have oka: "timers_ok ?a" by (rule advance_ok)
  then have okq: "timers_ok ?q" by (rule fire_all_ok)
  let ?r = "fst (elapse (ms - nextDue p) ?q)"
  from fire_all_frame [OF oka, of "dueHandles ?a"] have f: "sameButTimed ?a ?q"
    "previousKeys ?q = previousKeys p \<or> previousKeys ?q = []"
    by simp_all
  from step.IH [OF okq] have ih: "sameButTimed ?q ?r"
    "previousKeys ?r = previousKeys ?q \<or> previousKeys ?r = []"
    by simp_all
  have "sameButTimed p ?a" by simp
  from this f(1) have "sameButTimed p ?q" by (rule sameButTimed_trans)
  from this ih(1) have "sameButTimed p ?r" by (rule sameButTimed_trans)
  moreover from f(2) ih(2) have "previousKeys ?r = previousKeys p \<or> previousKeys ?r = []"
    by auto
  ultimately show ?case
    unfolding elapse_step_fst [OF step.hyps] by simp
qed


text \<open>In every reachable state outside a batch, no state update is queued.\<close>

lemma setState_settled: "\<not> batching p \<Longrightarrow> pending (setState v p) = []"
  by (simp add: setState_outside)

lemma reachable_settled: "reachable p \<Longrightarrow> \<not> batching p \<Longrightarrow> pending p = []"
proof (induction rule: reachable.induct)
  case (fresh tags)
  show ?case by (simp add: initial_def)
next
  case (registered p r now)
  show ?case
  proof (cases r)
    case (Chord m rawKeys ttl descr holdDur)
    with registered show ?thesis
      by (cases "\<exists>k\<in>set (transformKeys rawKeys). k \<in> fst ` set (targetTable holdDur p)";
          cases holdDur)
         (simp_all add: registerShortcut_conflict registerShortcut_instant registerShortcut_hold
            targetTable_def setState_settled)
  next
    case (Sequenced m rawKeys ttl descr)
    with registered show ?thesis
      by (cases "toLowerCase (join '','' rawKeys) \<in> fst ` set (sequenceListeners p)")
         (simp_all add: registerSequenceShortcut_conflict registerSequenceShortcut_fresh
            setState_settled)
  qed
next
  case (unregistered p rawKeys isSequence)
  then show ?case
    by (simp add: unregisterShortcut_eq setState_settled)
next
  case (pressed p e)
  then show ?case
    by (cases "toLowerCase (tagName e) \<notin> set (ignoreList p) \<and>
          toLowerCase (key e) \<notin> set (keysDown p)")
       (auto simp: keyDown_state keyDown_ignored)
next
  case (released p e)
  then show ?case by (simp add: keyUp_def Let_def)
next
  case (waited p ms)
  from waited.hyps have "timers_ok p" by (rule reachable_timers_ok)
  from elapse_frame [OF this, of ms] have "sameButTimed p (fst (elapse ms p))" by simp
  from sameButTimed_fields(9,10) [OF this] waited show ?case by simp
next
  case (began p)
  then show ?case by (simp add: beginBatch_def)
next
  case (ended p)
  show ?case by (simp add: endBatch_def flush_eq)
qed

section \<open>Before the inactivity timeout\<close>

lemma fire_all_no_reset:
  "timers_ok p \<Longrightarrow>
   \<forall>(h, t)\<in>set (timers p). h \<in> set hs \<longrightarrow> callback t \<noteq> SequenceReset \<Longrightarrow>
   sameButHold p (fst (fire_all hs p)) \<and>
   (\<forall>(h, t)\<in>set (timers (fst (fire_all hs p))).
      callback t = SequenceReset \<longrightarrow> (h, t) \<in> set (timers p))"
proof (induction hs arbitrary: p)
  case Nil
  then show ?case by auto
next
  case (Cons h hs)
  let ?q = "fst (fire h p)"
  have step: "sameButHold p ?q \<and> timers_ok ?q \<and>
      (\<forall>(h', t')\<in>set (timers ?q). (h', t') \<in> set (timers p) \<or> (h' = h \<and> callback t' \<noteq> SequenceReset))"
  proof (cases "map_of (timers p) h")
    case None
    with Cons.prems(1) show ?thesis by (auto simp: fire_absent)
  next
    case (Some t)
    then have "(h, t) \<in> set (timers p)" by (rule map_of_SomeD)
    with Cons.prems(2) have nr: "callback t \<noteq> SequenceReset" by auto
    then obtain ks kp e where cb: "callback t = HoldTick ks kp e"
      by (cases "callback t") auto
    from fire_HoldTick_props(1,2,4) [OF Cons.prems(1) Some cb] cb show ?thesis
      by auto
  qed
  then have "\<forall>(h', t')\<in>set (timers ?q). h' \<in> set hs \<longrightarrow> callback t' \<noteq> SequenceReset"
    using Cons.prems(2) by fastforce
  with Cons.IH [of ?q] step have
    ih: "sameButHold ?q (fst (fire_all hs ?q))"
      "\<forall>(h, t)\<in>set (timers (fst (fire_all hs ?q))). callback t = SequenceReset \<longrightarrow> (h, t) \<in> set (timers ?q)"
    by simp_all
  from step ih(1) have "sameButHold p (fst (fire_all (h # hs) p))"
    unfolding fire_all_Cons_fst by (blast intro: sameButHold_trans)
  moreover from step ih(2) have "\<forall>(h', t')\<in>set (timers (fst (fire_all (h # hs) p))).
      callback t' = SequenceReset \<longrightarrow> (h', t') \<in> set (timers p)"
    unfolding fire_all_Cons_fst by fastforce
  ultimately show ?case by simp
qed

lemma timers_advance:
  "set (timers (advance d p)) = (\<lambda>(h, t). (h, t\<lparr> remaining := remaining t - d \<rparr>)) ` set (timers p)"
  by (simp add: advance_def)

lemma dueHandles_iff:
  "h \<in> set (dueHandles p) \<longleftrightarrow> (\<exists>t. (h, t) \<in> set (timers p) \<and> remaining t = 0)"
  by (force simp: dueHandles_def)

lemma distinct_same:
  "distinct (map fst al) \<Longrightarrow> (k, v) \<in> set al \<Longrightarrow> (k, v') \<in> set al \<Longrightarrow> v = v'"
  by (metis map_of_eq_Some_iff option.inject)

lemma elapse_before_reset:
  "timers_ok p \<Longrightarrow>
   \<forall>(h, t)\<in>set (timers p). callback t = SequenceReset \<longrightarrow> ms < remaining t \<Longrightarrow>
   sameButHold p (fst (elapse ms p))"
proof (induction ms p rule: elapse_cases)
  case (stop ms p)
  then show ?case by (simp add: elapse_stop)
next
  case (step ms p)
  let ?d = "nextDue p"
  let ?a = "advance ?d p"
  let ?q = "fst (fire_all (dueHandles ?a) ?a)"
  from step.hyps have d: "?d \<le> ms" by simp
  from step.prems(1) have oka: "timers_ok ?a" by (rule advance_ok)
  have later: "\<forall>(h, t)\<in>set (timers ?a). callback t = SequenceReset \<longrightarrow> ms - ?d < remaining t"
    using step.prems(2) d by (fastforce simp: timers_advance)
  have "\<forall>(h, t)\<in>set (timers ?a). h \<in> set (dueHandles ?a) \<longrightarrow> callback t \<noteq> SequenceReset"
  proof (clarify)
    fix h t assume m: "(h, t) \<in> set (timers ?a)" and due: "h \<in> set (dueHandles ?a)"
      and cb: "callback t = SequenceReset"
    from due obtain t0 where "(h, t0) \<in> set (timers ?a)" "remaining t0 = 0"
      by (auto simp: dueHandles_iff)
    with m oka have "remaining t = 0"
      by (auto simp: timers_ok_iff dest: distinct_same)
    with later m cb show False by auto
  qed
  from fire_all_no_reset [OF oka this] have
    q: "sameButHold ?a ?q"
      "\<forall>(h, t)\<in>set (timers ?q). callback t = SequenceReset \<longrightarrow> (h, t) \<in> set (timers ?a)"
    by simp_all
  from oka have okq: "timers_ok ?q" by (rule fire_all_ok)
  from q(2) later have "\<forall>(h, t)\<in>set (timers ?q). callback t = SequenceReset \<longrightarrow> ms - ?d < remaining t"
    by fastforce
  from step.IH [OF okq this] q(1) show ?case
    unfolding elapse_step_fst [OF step.hyps]
    by (blast intro: sameButHold_trans sameButHold_advance)
qed

section \<open>After the inactivity timeout\<close>

lemma fire_all_empty_buffer:
  "timers_ok p \<Longrightarrow> previousKeys p = [] \<Longrightarrow> previousKeys (fst (fire_all hs p)) = []"
  using fire_all_frame [of p hs] by auto

lemma elapse_empty_buffer:
  "timers_ok p \<Longrightarrow> previousKeys p = [] \<Longrightarrow> previousKeys (fst (elapse ms p)) = []"
  using elapse_frame [of p ms] by auto

lemma fire_all_reset:
  "timers_ok p \<Longrightarrow> (h2, t2) \<in> set (timers p) \<Longrightarrow> callback t2 = SequenceReset \<Longrightarrow>
   holdInterval p \<noteq> Some h2 \<Longrightarrow>
   (h2 \<in> set hs \<longrightarrow> previousKeys (fst (fire_all hs p)) = []) \<and>
   (h2 \<notin> set hs \<longrightarrow> (h2, t2) \<in> set (timers (fst (fire_all hs p))) \<and>
                     holdInterval (fst (fire_all hs p)) \<noteq> Some h2)"
proof (induction hs arbitrary: p)
  case Nil
  then show ?case by simp
next
  case (Cons h hs)
  let ?q = "fst (fire h p)"
  from Cons.prems(1) have okq: "timers_ok ?q" by (rule fire_ok)
  from Cons.prems(1,2,3) have sq: "sequenceTimer p = Some h2"
    by (auto simp: timers_ok_iff)
  from Cons.prems(1,2) have m2: "map_of (timers p) h2 = Some t2"
    by (simp add: timers_ok_iff)
  show ?case
  proof (cases "h = h2")
    case True
    from fire_SequenceReset_ok(1) [OF Cons.prems(1) m2 Cons.prems(3)] True
    have "previousKeys ?q = []" by simp
    with okq have "previousKeys (fst (fire_all hs ?q)) = []"
      by (rule fire_all_empty_buffer)
    with True show ?thesis by (simp add: fire_all_Cons_fst del: fire_all.simps)
  next
    case False
    have keep: "(h2, t2) \<in> set (timers ?q) \<and> holdInterval ?q \<noteq> Some h2"
    proof (cases "map_of (timers p) h")
      case None
      with Cons.prems show ?thesis by (simp add: fire_absent)
    next
      case (Some t)
      then have mem: "(h, t) \<in> set (timers p)" by (rule map_of_SomeD)
      have "callback t \<noteq> SequenceReset"
      proof
        assume "callback t = SequenceReset"
        with mem Cons.prems(1) have "sequenceTimer p = Some h" by (auto simp: timers_ok_iff)
        with sq False show False by simp
      qed
      then obtain ks kp e where cb: "callback t = HoldTick ks kp e"
        by (cases "callback t") auto
      from fire_HoldTick_props(3,5) [OF Cons.prems(1) Some cb] Cons.prems(2,4) False
      show ?thesis by fastforce
    qed
    from Cons.IH [OF okq conjunct1 [OF keep] Cons.prems(3) conjunct2 [OF keep]] False
    show ?thesis by (simp add: fire_all_Cons_fst del: fire_all.simps)
  qed
qed

lemma nextDue_le:
  assumes "(h, t) \<in> set (timers p)" and "0 < remaining t"
  shows "nextDue p \<le> remaining t"
proof -
  from assms(1) have ne: "map (\<lambda>(h, t). remaining t) (timers p) \<noteq> []" by auto
  from assms(1) have "remaining t \<in> set (map (\<lambda>(h, t). remaining t) (timers p))" by force
  then have "Min (set (map (\<lambda>(h, t). remaining t) (timers p))) \<le> remaining t"
    by (intro Min_le) simp_all
  with ne assms(2) show ?thesis
    by (simp add: nextDue_def min_list_Min)
qed

lemma holdInterval_advance [simp]: "holdInterval (advance d p) = holdInterval p"
  by (simp add: advance_def)

lemma elapse_after_reset:
  "timers_ok p \<Longrightarrow> (h2, t2) \<in> set (timers p) \<Longrightarrow> callback t2 = SequenceReset \<Longrightarrow>
   holdInterval p \<noteq> Some h2 \<Longrightarrow> 0 < remaining t2 \<Longrightarrow> remaining t2 \<le> ms \<Longrightarrow>
   previousKeys (fst (elapse ms p)) = []"
proof (induction ms p arbitrary: t2 rule: elapse_cases)
  case (stop ms p)
  from nextDue_le [OF stop.prems(2,5)] stop.prems(2,6) stop.hyps show ?case by auto
next
  case (step ms p)
  let ?d = "nextDue p"
  let ?a = "advance ?d p"
  let ?q = "fst (fire_all (dueHandles ?a) ?a)"
  let ?t = "t2\<lparr> remaining := remaining t2 - ?d \<rparr>"
  from step.prems(1) have oka: "timers_ok ?a" by (rule advance_ok)
  then have okq: "timers_ok ?q" by (rule fire_all_ok)
  from step.prems(2) have mem: "(h2, ?t) \<in> set (timers ?a)"
    by (force simp: timers_advance)
  have cb: "callback ?t = SequenceReset" using step.prems(3) by simp
  have hi: "holdInterval ?a \<noteq> Some h2" using step.prems(4) by simp
  from nextDue_le [OF step.prems(2,5)] have dle: "?d \<le> remaining t2" .
  note fa = fire_all_reset [OF oka mem cb hi, of "dueHandles ?a"]
  show ?case
  proof (cases "remaining t2 = ?d")
    case True
    with mem have "h2 \<in> set (dueHandles ?a)" by (auto simp: dueHandles_iff)
    with fa have "previousKeys ?q = []" by simp
    with okq have "previousKeys (fst (elapse (ms - ?d) ?q)) = []"
      by (rule elapse_empty_buffer)
    then show ?thesis by (simp only: elapse_step_fst [OF step.hyps])
  next
    case False
    with dle have pos: "0 < remaining ?t" by simp
    have "h2 \<notin> set (dueHandles ?a)"
    proof
      assume "h2 \<in> set (dueHandles ?a)"
      then obtain t0 where "(h2, t0) \<in> set (timers ?a)" "remaining t0 = 0"
        by (auto simp: dueHandles_iff)
      with mem oka have "remaining ?t = 0"
        by (auto simp: timers_ok_iff dest: distinct_same)
      with pos show False by simp
    qed
    with fa have keep: "(h2, ?t) \<in> set (timers ?q)" "holdInterval ?q \<noteq> Some h2" by simp_all
    from step.prems(6) dle have "remaining ?t \<le> ms - ?d" by simp
    from step.IH [OF okq keep(1) cb keep(2) pos this] show ?thesis
      by (simp only: elapse_step_fst [OF step.hyps])
  qed
qed

section \<open>Ticks that find no duration\<close>

lemma holdCheck_idle:
  "\<forall>k\<in>set ks. map_of (holdDurations p) k = None \<Longrightarrow> holdCheck ks kp e p = (p, [], None)"
  by (induction ks) simp_all

text \<open>
  The premise of the lemmas below: no pending hold tick has a token with a registered
  duration.  Then no tick calls anything.
\<close>

lemma fire_idle:
  assumes idle: "\<forall>(h, t)\<in>set (timers p). \<forall>ks kp e. callback t = HoldTick ks kp e \<longrightarrow>
             (\<forall>k\<in>set ks. map_of (holdDurations p) k = None)"
  shows "snd (fire h p) = []"
    and "holdDurations (fst (fire h p)) = holdDurations p"
    and "\<forall>(h', t')\<in>set (timers (fst (fire h p))).
           \<exists>t0. (h', t0) \<in> set (timers p) \<and> callback t' = callback t0"
proof -
  have "snd (fire h p) = [] \<and> holdDurations (fst (fire h p)) = holdDurations p \<and>
     (\<forall>(h', t')\<in>set (timers (fst (fire h p))).
           \<exists>t0. (h', t0) \<in> set (timers p) \<and> callback t' = callback t0)"
  proof (cases "map_of (timers p) h")
    case None
    then show ?thesis by (auto simp: fire_absent)
  next
    case (Some t)
    then have mem: "(h, t) \<in> set (timers p)" by (rule map_of_SomeD)
    let ?p0 = "if repeating t
                then p\<lparr> timers := AList.update h (t\<lparr> remaining := delay t \<rparr>) (timers p) \<rparr>
                else clearTimer h p"
    have f: "fire h p = run_callback (callback t) ?p0"
      using Some by (simp add: fire_def)
    have sub: "\<forall>(h', t')\<in>set (timers ?p0). \<exists>t0. (h', t0) \<in> set (timers p) \<and> callback t' = callback t0"
    proof (cases "repeating t")
      case True
      have "\<exists>t0. (h', t0) \<in> set (timers p) \<and> callback t' = callback t0"
        if "(h', t') \<in> set (AList.update h (t\<lparr> remaining := delay t \<rparr>) (timers p))" for h' t'
      proof -
        from that set_update_subset [of h "t\<lparr> remaining := delay t \<rparr>" "timers p"]
        have "(h', t') = (h, t\<lparr> remaining := delay t \<rparr>) \<or> (h', t') \<in> set (timers p)"
          by blast
        with mem show ?thesis by auto
      qed
      with True show ?thesis by auto
    next
      case False
      then show ?thesis by (auto simp: clearTimer_def set_delete)
    qed
    have hd: "holdDurations ?p0 = holdDurations p" by (simp add: clearTimer_def)
    show ?thesis
    proof (cases "callback t")
      case (HoldTick ks kp e)
      with idle mem have "\<forall>k\<in>set ks. map_of (holdDurations p) k = None" by blast
      with hd have "holdCheck ks kp e ?p0 = (?p0, [], None)"
        by (intro holdCheck_idle) simp
      with f HoldTick have "fire h p = (?p0\<lparr> holdTimer := holdTimer ?p0 + 100 \<rparr>, [])"
        by simp
      with sub hd show ?thesis by simp
    next
      case SequenceReset
      with f have "fire h p = (?p0\<lparr> previousKeys := [], sequenceTimer := None \<rparr>, [])"
        by simp
      with sub hd show ?thesis by simp
    qed
  qed
  then show "snd (fire h p) = []"
    and "holdDurations (fst (fire h p)) = holdDurations p"
    and "\<forall>(h', t')\<in>set (timers (fst (fire h p))).
           \<exists>t0. (h', t0) \<in> set (timers p) \<and> callback t' = callback t0"
    by simp_all
qed

lemma fire_idle_preserved:
  assumes idle: "\<forall>(h, t)\<in>set (timers p). \<forall>ks kp e. callback t = HoldTick ks kp e \<longrightarrow>
             (\<forall>k\<in>set ks. map_of (holdDurations p) k = None)"
  shows "\<forall>(h', t)\<in>set (timers (fst (fire h p))). \<forall>ks kp e. callback t = HoldTick ks kp e \<longrightarrow>
             (\<forall>k\<in>set ks. map_of (holdDurations (fst (fire h p))) k = None)"
proof (clarify)
  fix h' t ks kp e k
  assume m: "(h', t) \<in> set (timers (fst (fire h p)))" and cb: "callback t = HoldTick ks kp e"
    and k: "k \<in> set ks"
  from fire_idle(3) [OF idle, of h] m obtain t0 where
    "(h', t0) \<in> set (timers p)" "callback t = callback t0" by auto
  with idle cb k have "map_of (holdDurations p) k = None" by fastforce
  then show "map_of (holdDurations (fst (fire h p))) k = None"
    by (simp add: fire_idle(2) [OF idle])
qed

lemma fire_all_idle:
  "\<forall>(h, t)\<in>set (timers p). \<forall>ks kp e. callback t = HoldTick ks kp e \<longrightarrow>
      (\<forall>k\<in>set ks. map_of (holdDurations p) k = None) \<Longrightarrow>
   snd (fire_all hs p) = [] \<and>
   (\<forall>(h, t)\<in>set (timers (fst (fire_all hs p))). \<forall>ks kp e. callback t = HoldTick ks kp e \<longrightarrow>
      (\<forall>k\<in>set ks. map_of (holdDurations (fst (fire_all hs p))) k = None))"
proof (induction hs arbitrary: p)
  case Nil
  then show ?case by simp
next
  case (Cons h hs)
  from Cons.IH [OF fire_idle_preserved [OF Cons.prems, of h]] fire_idle(1) [OF Cons.prems, of h]
  show ?case
    by (simp only: fire_all_Cons_fst fire_all_Cons_snd) simp
qed

lemma advance_idle:
  "\<forall>(h, t)\<in>set (timers p). \<forall>ks kp e. callback t = HoldTick ks kp e \<longrightarrow>
      (\<forall>k\<in>set ks. map_of (holdDurations p) k = None) \<Longrightarrow>
   \<forall>(h, t)\<in>set (timers (advance d p)). \<forall>ks kp e. callback t = HoldTick ks kp e \<longrightarrow>
      (\<forall>k\<in>set ks. map_of (holdDurations (advance d p)) k = None)"
  by (fastforce simp: timers_advance advance_def)

lemma elapse_idle:
  "\<forall>(h, t)\<in>set (timers p). \<forall>ks kp e. callback t = HoldTick ks kp e \<longrightarrow>
      (\<forall>k\<in>set ks. map_of (holdDurations p) k = None) \<Longrightarrow>
   snd (elapse ms p) = []"
proof (induction ms p rule: elapse_cases)
  case (stop ms p)
  then show ?case by (simp add: elapse_stop)
next
  case (step ms p)
  from fire_all_idle [OF advance_idle [OF step.prems, of "nextDue p"],
      of "dueHandles (advance (nextDue p) p)"]
    step.IH
  show ?case
    by (simp only: elapse_step_snd [OF step.hyps]) simp
qed

section \<open>Sequences\<close>

lemma sequenceCalls_append: "sequenceCalls (xs @ ys) = sequenceCalls xs @ sequenceCalls ys"
  by (induction xs rule: sequenceCalls.induct) simp_all

lemma sequenceCalls_instant [simp]:
  "sequenceCalls (case x of Some m \<Rightarrow> [PreventDefault e, Call Instantaneous k m e] | None \<Rightarrow> []) = []"
  by (cases x) simp_all

lemma ignoreList_cong: "ignoreTagNames q = ignoreTagNames p \<Longrightarrow> ignoreList q = ignoreList p"
  by (simp add: ignoreList_def)

lemma pressedKeys_plain:
  "\<not> ctrlKey e \<Longrightarrow> \<not> altKey e \<Longrightarrow> \<not> metaKey e \<Longrightarrow> pressedKeys e = [toLowerCase (key e)]"
  by (simp add: pressedKeys_def)

lemma keyDown_sequenceCalls:
  "toLowerCase (tagName e) \<notin> set (ignoreList p) \<Longrightarrow>
   toLowerCase (key e) \<notin> set (keysDown p) \<Longrightarrow>
   sequenceCalls (snd (keyDown e p)) =
     (case map_of (sequenceListeners p) (join '','' (previousKeys p @ pressedKeys e)) of
        Some m \<Rightarrow> [(join '','' (previousKeys p @ pressedKeys e), m, e)]
      | None \<Rightarrow> [])"
  by (simp add: keyDown_effects sequenceCalls_append split: option.splits)

lemma elapse_keeps_reset:
  "timers_ok p \<Longrightarrow> (h2, t2) \<in> set (timers p) \<Longrightarrow> callback t2 = SequenceReset \<Longrightarrow>
   holdInterval p \<noteq> Some h2 \<Longrightarrow> ms < remaining t2 \<Longrightarrow>
   (h2, t2\<lparr> remaining := remaining t2 - ms \<rparr>) \<in> set (timers (fst (elapse ms p))) \<and>
   holdInterval (fst (elapse ms p)) \<noteq> Some h2"
proof (induction ms p arbitrary: t2 rule: elapse_cases)
  case (stop ms p)
  then show ?case
    by (force simp: elapse_stop timers_advance)
next
  case (step ms p)
  let ?d = "nextDue p"
  let ?a = "advance ?d p"
  let ?q = "fst (fire_all (dueHandles ?a) ?a)"
  let ?t = "t2\<lparr> remaining := remaining t2 - ?d \<rparr>"
  from step.hyps have d: "?d \<le> ms" by simp
  from step.prems(1) have oka: "timers_ok ?a" by (rule advance_ok)
  then have okq: "timers_ok ?q" by (rule fire_all_ok)
  from step.prems(2) have mem: "(h2, ?t) \<in> set (timers ?a)"
    by (force simp: timers_advance)
  have cb: "callback ?t = SequenceReset" using step.prems(3) by simp
  have hi: "holdInterval ?a \<noteq> Some h2" using step.prems(4) by simp
  from d step.prems(5) have pos: "0 < remaining ?t" by simp
  have "h2 \<notin> set (dueHandles ?a)"
  proof
    assume "h2 \<in> set (dueHandles ?a)"
    then obtain t0 where "(h2, t0) \<in> set (timers ?a)" "remaining t0 = 0"
      by (auto simp: dueHandles_iff)
    with mem oka have "remaining ?t = 0"
      by (auto simp: timers_ok_iff dest: distinct_same)
    with pos show False by simp
  qed
  with fire_all_reset [OF oka mem cb hi, of "dueHandles ?a"]
  have keep: "(h2, ?t) \<in> set (timers ?q)" "holdInterval ?q \<noteq> Some h2" by simp_all
  from d step.prems(5) have "ms - ?d < remaining ?t" by simp
  from step.IH [OF okq keep(1) cb keep(2) this] d step.prems(5)
  show ?case
    by (simp add: elapse_step_fst [OF step.hyps])
qed

lemma keyUp_keeps_reset:
  "(h2, t2) \<in> set (timers p) \<Longrightarrow> holdInterval p \<noteq> Some h2 \<Longrightarrow>
   (h2, t2) \<in> set (timers (keyUp e p)) \<and> holdInterval (keyUp e p) \<noteq> Some h2"
  by (auto simp: keyUp_def Let_def resetTimer_timers set_delete split: option.splits)

lemma keyUp_frame:
  "previousKeys (keyUp e p) = previousKeys p"
  "set (keysDown (keyUp e p)) \<subseteq> set (keysDown p)"
  "sequenceListeners (keyUp e p) = sequenceListeners p"
  "ignoreTagNames (keyUp e p) = ignoreTagNames p"
  by (auto simp: keyUp_def Let_def)

text \<open>
  While the inactivity timeout has more time left than the quiet steps take, it stays
  pending with the rest of its time and the buffer is untouched.
\<close>

lemma quietly_before_reset:
  "timers_ok p \<Longrightarrow> (h2, t2) \<in> set (timers p) \<Longrightarrow> callback t2 = SequenceReset \<Longrightarrow>
   holdInterval p \<noteq> Some h2 \<Longrightarrow> waitTotal qs < remaining t2 \<Longrightarrow>
   previousKeys (quietly qs p) = previousKeys p \<and>
   set (keysDown (quietly qs p)) \<subseteq> set (keysDown p) \<and>
   sequenceListeners (quietly qs p) = sequenceListeners p \<and>
   ignoreTagNames (quietly qs p) = ignoreTagNames p"
proof (induction qs p arbitrary: t2 rule: quietly.induct)
  case (1 p)
  then show ?case by simp
next
  case (2 ms qs p)
  let ?q = "fst (elapse ms p)"
  let ?t = "t2\<lparr> remaining := remaining t2 - ms \<rparr>"
  from "2.prems"(5) have ms: "ms < remaining t2" by simp
  from "2.prems"(1) have okq: "timers_ok ?q" by (rule elapse_ok)
  from elapse_keeps_reset [OF "2.prems"(1-4) ms]
  have keep: "(h2, ?t) \<in> set (timers ?q)" "holdInterval ?q \<noteq> Some h2" by simp_all
  have "\<forall>(h, t)\<in>set (timers p). callback t = SequenceReset \<longrightarrow> ms < remaining t"
  proof (clarify)
    fix h t assume m: "(h, t) \<in> set (timers p)" and cb: "callback t = SequenceReset"
    with "2.prems"(1,2,3) have "sequenceTimer p = Some h" "sequenceTimer p = Some h2"
      by (fastforce simp: timers_ok_iff)+
    then have "h = h2" by simp
    with m "2.prems"(1,2) have "t = t2" by (auto simp: timers_ok_iff dest: distinct_same)
    with ms show "ms < remaining t" by simp
  qed
  from elapse_before_reset [OF "2.prems"(1) this] have same: "sameButHold p ?q" .
  note f = sameButHold_fields [OF same]
  from "2.prems"(5) have "waitTotal qs < remaining ?t" by simp
  from "2.IH" [OF okq keep(1) _ keep(2) this] "2.prems"(3) f show ?case
    by simp
next
  case (3 e qs p)
  from "3.prems"(1) have okq: "timers_ok (keyUp e p)" by (rule keyUp_ok)
  from keyUp_keeps_reset [OF "3.prems"(2,4), of e]
  have keep: "(h2, t2) \<in> set (timers (keyUp e p))" "holdInterval (keyUp e p) \<noteq> Some h2"
    by simp_all
  from "3.prems"(5) have "waitTotal qs < remaining t2" by simp
  from "3.IH" [OF okq keep(1) "3.prems"(3) keep(2) this] keyUp_frame [of e p] show ?case
    by auto
qed

text \<open>
  Once the quiet steps take at least the time the inactivity timeout has left, the
  buffer is empty after them; an empty buffer stays empty.
\<close>

lemma quietly_after_reset:
  "timers_ok p \<Longrightarrow>
   previousKeys p = [] \<or>
   ((h2, t2) \<in> set (timers p) \<and> callback t2 = SequenceReset \<and> holdInterval p \<noteq> Some h2 \<and>
    0 < remaining t2 \<and> remaining t2 \<le> waitTotal qs) \<Longrightarrow>
   previousKeys (quietly qs p) = [] \<and>
   set (keysDown (quietly qs p)) \<subseteq> set (keysDown p) \<and>
   sequenceListeners (quietly qs p) = sequenceListeners p \<and>
   ignoreTagNames (quietly qs p) = ignoreTagNames p"
proof (induction qs p arbitrary: t2 rule: quietly.induct)
  case (1 p)
  then show ?case by auto
next
  case (2 ms qs p)
  let ?q = "fst (elapse ms p)"
  let ?t = "t2\<lparr> remaining := remaining t2 - ms \<rparr>"
  from "2.prems"(1) have okq: "timers_ok ?q" by (rule elapse_ok)
  from elapse_frame [OF "2.prems"(1), of ms] have same: "sameButTimed p ?q" by simp
  note f = sameButTimed_fields [OF same]
  have "previousKeys ?q = [] \<or>
    ((h2, ?t) \<in> set (timers ?q) \<and> callback ?t = SequenceReset \<and> holdInterval ?q \<noteq> Some h2 \<and>
     0 < remaining ?t \<and> remaining ?t \<le> waitTotal qs)"
  proof (cases "previousKeys p = []")
    case True
    with "2.prems"(1) show ?thesis by (simp add: elapse_empty_buffer)
  next
    case False
    with "2.prems"(2) have t: "(h2, t2) \<in> set (timers p)" "callback t2 = SequenceReset"
      "holdInterval p \<noteq> Some h2" "0 < remaining t2" "remaining t2 \<le> ms + waitTotal qs"
      by simp_all
    show ?thesis
    proof (cases "remaining t2 \<le> ms")
      case True
      from elapse_after_reset [OF "2.prems"(1) t(1,2,3,4) True] show ?thesis by simp
    next
      case False
      then have ms: "ms < remaining t2" by simp
      from t(5) ms have "remaining t2 - ms \<le> waitTotal qs" by arith
      with elapse_keeps_reset [OF "2.prems"(1) t(1,2,3) ms] t(2) ms show ?thesis
        by simp
    qed
  qed
  from "2.IH" [OF okq this] f show ?case by simp
next
  case (3 e qs p)
  from "3.prems"(1) have okq: "timers_ok (keyUp e p)" by (rule keyUp_ok)
  have "previousKeys (keyUp e p) = [] \<or>
    ((h2, t2) \<in> set (timers (keyUp e p)) \<and> callback t2 = SequenceReset \<and>
     holdInterval (keyUp e p) \<noteq> Some h2 \<and> 0 < remaining t2 \<and> remaining t2 \<le> waitTotal qs)"
    using "3.prems"(2) keyUp_keeps_reset [of h2 t2 p e] keyUp_frame(1) [of e p]
    by auto
  from "3.IH" [OF okq this] keyUp_frame [of e p] show ?case
    by auto
qed

text \<open>
  C3 (as amended).  Let a sequence handler be stored under \<open>a,b\<close> (what registering
  \<open>["a", "b"]\<close> does), in a reachable state whose sequence buffer is empty, and let \<open>a\<close>
  and then \<open>b\<close> be pressed without modifiers on targets that are not ignored, neither key
  being recorded as down, with no key-down between the two: only key-ups and the passage
  of time, \<open>waitTotal qs\<close> milliseconds in all.  If that is less than 2000, the key-down
  of \<open>b\<close> calls the sequence handler, once, with that event.  If it is more than 2000,
  the buffer has been reset by the inactivity timeout and the key-down of \<open>b\<close> makes no
  call under \<open>a,b\<close>.  Every handled key-down, in every reachable state, leaves exactly
  one inactivity timeout pending: a fresh one of 2000ms under a new handle, stored in
  \<open>sequenceTimer\<close>; the one pending before is cancelled.
\<close>

theorem C3_sequence_window:
  "(reachable p \<and> previousKeys p = [] \<and>
    map_of (sequenceListeners p) ''a,b'' = Some m \<and>
    toLowerCase (key ea) = ''a'' \<and> \<not> ctrlKey ea \<and> \<not> altKey ea \<and> \<not> metaKey ea \<and>
    toLowerCase (key eb) = ''b'' \<and> \<not> ctrlKey eb \<and> \<not> altKey eb \<and> \<not> metaKey eb \<and>
    toLowerCase (tagName ea) \<notin> set (ignoreList p) \<and>
    toLowerCase (tagName eb) \<notin> set (ignoreList p) \<and>
    ''a'' \<notin> set (keysDown p) \<and> ''b'' \<notin> set (keysDown p) \<longrightarrow>
      (waitTotal qs < 2000 \<longrightarrow>
         sequenceCalls (snd (keyDown eb (quietly qs (fst (keyDown ea p))))) =
           [(''a,b'', m, eb)]) \<and>
      (2000 < waitTotal qs \<longrightarrow>
         ''a,b'' \<notin> fst ` set (sequenceCalls
            (snd (keyDown eb (quietly qs (fst (keyDown ea p)))))))) \<and>
   (reachable q \<and> toLowerCase (tagName e) \<notin> set (ignoreList q) \<and>
    toLowerCase (key e) \<notin> set (keysDown q) \<longrightarrow>
      sequenceTimer (fst (keyDown e q)) = Some (Suc (nextHandle q)) \<and>
      Suc (nextHandle q) \<notin> fst ` set (timers q) \<and>
      filter (\<lambda>(h, t). callback t = SequenceReset) (timers (fst (keyDown e q))) =
        [(Suc (nextHandle q), sequenceTimeout)])"
proof (intro conjI impI; (elim conjE)?)
  assume r: "reachable p" and buf: "previousKeys p = []"
    and reg: "map_of (sequenceListeners p) ''a,b'' = Some m"
    and a: "toLowerCase (key ea) = ''a''" "\<not> ctrlKey ea" "\<not> altKey ea" "\<not> metaKey ea"
    and b: "toLowerCase (key eb) = ''b''" "\<not> ctrlKey eb" "\<not> altKey eb" "\<not> metaKey eb"
    and ta: "toLowerCase (tagName ea) \<notin> set (ignoreList p)"
    and tb: "toLowerCase (tagName eb) \<notin> set (ignoreList p)"
    and da: "''a'' \<notin> set (keysDown p)" and db: "''b'' \<notin> set (keysDown p)"
    and ms: "waitTotal qs < 2000"
  let ?p1 = "fst (keyDown ea p)"
  let ?p2 = "quietly qs ?p1"
  let ?S = "(Suc (nextHandle p),
      \<lparr> repeating = False, delay = 2000, remaining = 2000, callback = SequenceReset \<rparr>)"
  from r have ok: "timers_ok p" by (rule reachable_timers_ok)
  from da a have ha: "toLowerCase (key ea) \<notin> set (keysDown p)" by simp
  have pa: "pressedKeys ea = [''a'']" using a by (simp add: pressedKeys_plain)
  have pb: "pressedKeys eb = [''b'']" using b by (simp add: pressedKeys_plain)
  note st = keyDown_state [OF ta ha]
  have f1: "previousKeys ?p1 = [''a'']" "keysDown ?p1 = keysDown p @ [''a'']"
    "sequenceListeners ?p1 = sequenceListeners p" "ignoreTagNames ?p1 = ignoreTagNames p"
    "holdInterval ?p1 \<noteq> Some (Suc (nextHandle p))"
    by (simp_all add: st buf pa)
  note ok1 = keyDown_resets(1) [OF ok ta ha]
  note rs1 = keyDown_resets(2) [OF ok ta ha]
  have "?S \<in> set (filter (\<lambda>(h, t). callback t = SequenceReset) (timers ?p1))"
    unfolding rs1 by simp
  then have mem: "?S \<in> set (timers ?p1)" by simp
  from quietly_before_reset [OF ok1 mem _ f1(5), of qs] ms
  have f2: "previousKeys ?p2 = previousKeys ?p1" "set (keysDown ?p2) \<subseteq> set (keysDown ?p1)"
    "sequenceListeners ?p2 = sequenceListeners ?p1" "ignoreTagNames ?p2 = ignoreTagNames ?p1"
    by simp_all
  have tb2: "toLowerCase (tagName eb) \<notin> set (ignoreList ?p2)"
    using tb ignoreList_cong [of ?p2 p] f2(4) f1(4) by simp
  have hb2: "toLowerCase (key eb) \<notin> set (keysDown ?p2)"
    using db b f2(2) f1(2) by auto
  show "sequenceCalls (snd (keyDown eb ?p2)) = [(''a,b'', m, eb)]"
    using reg by (simp add: keyDown_sequenceCalls [OF tb2 hb2] f2 f1 pb)
next
  assume r: "reachable p" and buf: "previousKeys p = []"
    and reg: "map_of (sequenceListeners p) ''a,b'' = Some m"
    and a: "toLowerCase (key ea) = ''a''" "\<not> ctrlKey ea" "\<not> altKey ea" "\<not> metaKey ea"
    and b: "toLowerCase (key eb) = ''b''" "\<not> ctrlKey eb" "\<not> altKey eb" "\<not> metaKey eb"
    and ta: "toLowerCase (tagName ea) \<notin> set (ignoreList p)"
    and tb: "toLowerCase (tagName eb) \<notin> set (ignoreList p)"
    and da: "''a'' \<notin> set (keysDown p)" and db: "''b'' \<notin> set (keysDown p)"
    and ms: "2000 < waitTotal qs"
  let ?p1 = "fst (keyDown ea p)"
  let ?p2 = "quietly qs ?p1"
  let ?S = "(Suc (nextHandle p),
      \<lparr> repeating = False, delay = 2000, remaining = 2000, callback = SequenceReset \<rparr>)"
  from r have ok: "timers_ok p" by (rule reachable_timers_ok)
  from da a have ha: "toLowerCase (key ea) \<notin> set (keysDown p)" by simp
  have pa: "pressedKeys ea = [''a'']" using a by (simp add: pressedKeys_plain)
  have pb: "pressedKeys eb = [''b'']" using b by (simp add: pressedKeys_plain)
  note st = keyDown_state [OF ta ha]
  have f1: "keysDown ?p1 = keysDown p @ [''a'']"
    "sequenceListeners ?p1 = sequenceListeners p" "ignoreTagNames ?p1 = ignoreTagNames p"
    "holdInterval ?p1 \<noteq> Some (Suc (nextHandle p))"
    by (simp_all add: st pa)
  note ok1 = keyDown_resets(1) [OF ok ta ha]
  note rs1 = keyDown_resets(2) [OF ok ta ha]
  have "?S \<in> set (filter (\<lambda>(h, t). callback t = SequenceReset) (timers ?p1))"
    unfolding rs1 by simp
  then have mem: "?S \<in> set (timers ?p1)" by simp
  have "previousKeys ?p1 = [] \<or>
    ((Suc (nextHandle p), snd ?S) \<in> set (timers ?p1) \<and> callback (snd ?S) = SequenceReset \<and>
     holdInterval ?p1 \<noteq> Some (Suc (nextHandle p)) \<and> 0 < remaining (snd ?S) \<and>
     remaining (snd ?S) \<le> waitTotal qs)"
    using mem f1(4) ms by simp
  from quietly_after_reset [OF ok1 this]
  have f2: "previousKeys ?p2 = []" "set (keysDown ?p2) \<subseteq> set (keysDown ?p1)"
    "sequenceListeners ?p2 = sequenceListeners ?p1" "ignoreTagNames ?p2 = ignoreTagNames ?p1"
    by simp_all
  have tb2: "toLowerCase (tagName eb) \<notin> set (ignoreList ?p2)"
    using tb ignoreList_cong [of ?p2 p] f2(4) f1(3) by simp
  have hb2: "toLowerCase (key eb) \<notin> set (keysDown ?p2)"
    using db b f2(2) f1(1) by auto
  have "sequenceCalls (snd (keyDown eb ?p2)) =
      (case map_of (sequenceListeners ?p2) ''b'' of Some m' \<Rightarrow> [(''b'', m', eb)] | None \<Rightarrow> [])"
    using f2(1) by (simp add: keyDown_sequenceCalls [OF tb2 hb2] pb split: option.splits)
  then show "''a,b'' \<notin> fst ` set (sequenceCalls (snd (keyDown eb ?p2)))"
    by (cases "map_of (sequenceListeners ?p2) ''b''") simp_all
next
  assume r: "reachable q" and t: "toLowerCase (tagName e) \<notin> set (ignoreList q)"
    and h: "toLowerCase (key e) \<notin> set (keysDown q)"
  show "sequenceTimer (fst (keyDown e q)) = Some (Suc (nextHandle q))"
    by (simp add: keyDown_state [OF t h])
next
  assume r: "reachable q" and t: "toLowerCase (tagName e) \<notin> set (ignoreList q)"
    and h: "toLowerCase (key e) \<notin> set (keysDown q)"
  from r have "timers_ok q" by (rule reachable_timers_ok)
  then show "Suc (nextHandle q) \<notin> fst ` set (timers q)"
    by (fastforce simp: timers_ok_iff)
next
  assume r: "reachable q" and t: "toLowerCase (tagName e) \<notin> set (ignoreList q)"
    and h: "toLowerCase (key e) \<notin> set (keysDown q)"
  from r have "timers_ok q" by (rule reachable_timers_ok)
  from keyDown_resets(2) [OF this t h]
  show "filter (\<lambda>(h, t). callback t = SequenceReset) (timers (fst (keyDown e q))) =
        [(Suc (nextHandle q), sequenceTimeout)]"
    by (simp add: sequenceTimeout_def)
qed

theorem C3_witness:
  "reachable sequenceAB \<and> previousKeys sequenceAB = [] \<and>
   map_of (sequenceListeners sequenceAB) ''a,b'' = Some 9 \<and>
   waitTotal [Wait 700, Release a_event, Wait 800] < 2000 \<and>
   sequenceCalls (snd (keyDown b_event
      (quietly [Wait 700, Release a_event, Wait 800] (fst (keyDown a_event sequenceAB))))) =
     [(''a,b'', 9, b_event)] \<and>
   2000 < waitTotal [Wait 700, Release a_event, Wait 1800] \<and>
   ''a,b'' \<notin> fst ` set (sequenceCalls (snd (keyDown b_event
      (quietly [Wait 700, Release a_event, Wait 1800] (fst (keyDown a_event sequenceAB)))))) \<and>
   sequenceTimer (fst (keyDown a_event sequenceAB)) = Some (Suc (nextHandle sequenceAB))"
proof -
  have r: "reachable sequenceAB"
    unfolding sequenceAB_def by (intro reachable.intros)
  have h: "previousKeys sequenceAB = [] \<and>
    map_of (sequenceListeners sequenceAB) ''a,b'' = Some 9 \<and>
    toLowerCase (key a_event) = ''a'' \<and> \<not> ctrlKey a_event \<and> \<not> altKey a_event \<and>
    \<not> metaKey a_event \<and>
    toLowerCase (key b_event) = ''b'' \<and> \<not> ctrlKey b_event \<and> \<not> altKey b_event \<and>
    \<not> metaKey b_event \<and>
    toLowerCase (tagName a_event) \<notin> set (ignoreList sequenceAB) \<and>
    toLowerCase (tagName b_event) \<notin> set (ignoreList sequenceAB) \<and>
    ''a'' \<notin> set (keysDown sequenceAB) \<and> ''b'' \<notin> set (keysDown sequenceAB)"
    by code_simp
  have k: "toLowerCase (key a_event) \<notin> set (keysDown sequenceAB)"
    by code_simp
  have w: "waitTotal [Wait 700, Release a_event, Wait 800] < 2000"
    "2000 < waitTotal [Wait 700, Release a_event, Wait 1800]"
    by simp_all
  from r h w(1) C3_sequence_window [where p = sequenceAB and m = 9 and ea = a_event and eb = b_event
      and qs = "[Wait 700, Release a_event, Wait 800]"]
  have 1: "sequenceCalls (snd (keyDown b_event
      (quietly [Wait 700, Release a_event, Wait 800] (fst (keyDown a_event sequenceAB))))) =
     [(''a,b'', 9, b_event)]"
    by blast
  from r h w(2) C3_sequence_window [where p = sequenceAB and m = 9 and ea = a_event and eb = b_event
      and qs = "[Wait 700, Release a_event, Wait 1800]"]
  have 2: "''a,b'' \<notin> fst ` set (sequenceCalls (snd (keyDown b_event
      (quietly [Wait 700, Release a_event, Wait 1800] (fst (keyDown a_event sequenceAB))))))"
    by blast
  from r h k C3_sequence_window [where q = sequenceAB and e = a_event]
  have 3: "sequenceTimer (fst (keyDown a_event sequenceAB)) = Some (Suc (nextHandle sequenceAB))"
    by blast
  from r h w 1 2 3 show ?thesis by blast
qed

text \<open>
  The claim as stated fails: with the sequence \<open>a\<close>, \<open>b\<close> registered, \<open>x\<close> is pressed,
  \<open>a\<close> 100ms later and \<open>b\<close> 100ms after \<open>a\<close>.  The buffer is then \<open>x\<close>, \<open>a\<close>, \<open>b\<close>,
  which is not the key \<open>a,b\<close>, and the key-down of \<open>b\<close> calls no sequence handler.
  Nor does every key-down restart the timeout: a key-down of \<open>a\<close> that arrives 1500ms
  after the first while \<open>a\<close> is still down is dropped as an auto-repeat, and the timeout
  of the first key-down stays pending under its handle with 500ms left.
\<close>

theorem C3_counterexample:
  "map_of (sequenceListeners sequenceAB) ''a,b'' = Some 9 \<and>
   sequenceCalls (snd (keyDown b_event (fst (elapse 100 (fst (keyDown a_event
      (fst (elapse 100 (fst (keyDown x_event sequenceAB))))))))))  = [] \<and>
   previousKeys (fst (keyDown b_event (fst (elapse 100 (fst (keyDown a_event
      (fst (elapse 100 (fst (keyDown x_event sequenceAB)))))))))) = [''x'', ''a'', ''b''] \<and>
   sequenceTimer (fst (keyDown a_event sequenceAB)) = Some 2 \<and>
   sequenceTimer (fst (keyDown a_event (fst (elapse 1500 (fst (keyDown a_event sequenceAB)))))) =
     Some 2 \<and>
   map_of (timers (fst (keyDown a_event (fst (elapse 1500 (fst (keyDown a_event sequenceAB))))))) 2 =
     Some \<lparr> repeating = False, delay = 2000, remaining = 500, callback = SequenceReset \<rparr>"
  by code_simp

section \<open>Held combinations\<close>

lemma single_key_hold_timing:
  "snd (elapse 399 holdOnS_pressed) = [] \<and>
   snd (elapse 400 holdOnS_pressed) = [Call Hold ''s'' 7 s_event] \<and>
   snd (elapse 1000 (keyUp s_event (fst (elapse 200 holdOnS_pressed)))) = [] \<and>
   holdTimer holdOnS_pressedAgain = 100 \<and>
   snd (elapse 299 holdOnS_pressedAgain) = [] \<and>
   snd (elapse 300 holdOnS_pressedAgain) = [Call Hold ''s'' 7 s_event]"
  by code_simp

text \<open>
  C2 (violated by the code).  A hold shortcut of 300ms is registered for \<open>ctrl+s\<close> and
  \<open>ctrl+s\<close> is pressed and held.  The table of durations has its entry under \<open>ctrl+s\<close>,
  the tick looks the duration up under the tokens \<open>ctrl\<close> and \<open>s\<close> of the key-down, finds
  none, and the hold handler is never called, however long the keys are held.
\<close>

theorem C2_multi_key_hold_never_fires:
  "map_of (holdListeners holdOnCtrlS_pressed) ''ctrl+s'' = Some 7 \<and>
   map_of (holdDurations holdOnCtrlS_pressed) ''ctrl+s'' = Some 300 \<and>
   keysDown holdOnCtrlS_pressed = [''ctrl'', ''s''] \<and>
   snd (elapse ms holdOnCtrlS_pressed) = []"
proof -
  have 1: "map_of (holdListeners holdOnCtrlS_pressed) ''ctrl+s'' = Some 7 \<and>
     map_of (holdDurations holdOnCtrlS_pressed) ''ctrl+s'' = Some 300 \<and>
     keysDown holdOnCtrlS_pressed = [''ctrl'', ''s'']"
    by code_simp
  have "list_all (\<lambda>(h, t). case callback t of
            HoldTick ks kp e \<Rightarrow> list_all (\<lambda>k. map_of (holdDurations holdOnCtrlS_pressed) k = None) ks
          | SequenceReset \<Rightarrow> True) (timers holdOnCtrlS_pressed)"
    by code_simp
  then have "\<forall>(h, t)\<in>set (timers holdOnCtrlS_pressed). \<forall>ks kp e. callback t = HoldTick ks kp e \<longrightarrow>
      (\<forall>k\<in>set ks. map_of (holdDurations holdOnCtrlS_pressed) k = None)"
    by (auto simp: list_all_iff)
  then have "snd (elapse ms holdOnCtrlS_pressed) = []"
    by (rule elapse_idle)
  with 1 show ?thesis by simp
qed

text \<open>
  C10 (violated by the code).  A hold shortcut of 300ms is registered for the bare key
  \<open>s\<close>, and \<open>s\<close> is pressed with the control key held.  The state is reachable.  After
  399ms the counter is at 300 and nothing has been called; the duration table has an
  entry for the token \<open>s\<close> and the hold table has none for \<open>ctrl+s\<close>, the combination of
  the key-down.  The tick at 400ms finds \<open>holdTimer >= holdDurations["s"]\<close>, calls
  \<open>holdListeners["ctrl+s"]\<close>, which is \<open>undefined\<close>, and throws a \<open>TypeError\<close>.
\<close>

theorem C10_tick_calls_absent_handler:
  "reachable (fst (elapse 399 holdOnS_ctrlPressed)) \<and>
   snd (elapse 399 holdOnS_ctrlPressed) = [] \<and>
   holdTimer (fst (elapse 399 holdOnS_ctrlPressed)) = 300 \<and>
   map_of (holdDurations (fst (elapse 399 holdOnS_ctrlPressed))) ''s'' = Some 300 \<and>
   map_of (holdListeners (fst (elapse 399 holdOnS_ctrlPressed))) ''ctrl+s'' = None \<and>
   snd (elapse 400 holdOnS_ctrlPressed) = [Uncaught TypeError]"
proof -
  have "holdOnS = perform (Chord 7 [''s''] ''Hold'' [] (Some 300)) 1 (initial None)"
    by (simp add: holdOnS_def)
  moreover have "reachable (perform (Chord 7 [''s''] ''Hold'' [] (Some 300)) 1 (initial None))"
    by (intro reachable.intros)
  ultimately have "reachable holdOnS"
    by simp
  then have "reachable (fst (elapse 399 holdOnS_ctrlPressed))"
    unfolding holdOnS_ctrlPressed_def by (intro reachable.intros)
  moreover have "snd (elapse 399 holdOnS_ctrlPressed) = [] \<and>
   holdTimer (fst (elapse 399 holdOnS_ctrlPressed)) = 300 \<and>
   map_of (holdDurations (fst (elapse 399 holdOnS_ctrlPressed))) ''s'' = Some 300 \<and>
   map_of (holdListeners (fst (elapse 399 holdOnS_ctrlPressed))) ''ctrl+s'' = None \<and>
   snd (elapse 400 holdOnS_ctrlPressed) = [Uncaught TypeError]"
    by code_simp
  ultimately show ?thesis by simp
qed

end
